theory Spec2Isabelle
  imports Complex_Main "HOL-Library.Log_Nat" "HOL-Library.Word"
begin

text \<open>
  A React hook that cycles through background images on a timer, raises a crossfade flag at
  each rotation and derives two accent colours from the image on display. Its helper functions
  are embedded as functions; the hook is embedded as a state machine over its state variables,
  its refs and the browser's timers and pending image samples, driven by the events the
  browser delivers: an interval firing, a timeout firing, a sample settling, time passing.
  Each event runs its callback, the render that follows and the effects of that render.
\<close>

section \<open>JavaScript numbers and strings\<close>

text \<open>
  The hook computes with JavaScript numbers, which are IEEE 754 doubles. A finite double is
  modelled by the rational it denotes, and \<open>NaN\<close> is what arithmetic on \<open>undefined\<close> (an array
  read past the end) produces. Addition, multiplication and division return the double
  nearest to the exact result, a tie going to the even significand: \<open>fl\<close> of the exact result.
  A decimal literal denotes the double nearest to it: \<open>1.05\<close> is \<open>fl (21/20)\<close> and \<open>0.1\<close> is
  \<open>fl (1/10)\<close>, while \<open>1.25\<close>, \<open>20\<close> and \<open>255\<close> are doubles themselves. Comparison, \<open>Math.max\<close>,
  \<open>Math.min\<close> and \<open>Math.round\<close> are exact on doubles.

  The exponent range of doubles is not modelled, so there are no infinities and no subnormal
  numbers: on the 64 by 64 canvas of the hook every number computed is 0 or lies between
  \<open>2 ^ -12\<close> and \<open>2 ^ 21\<close>, and the only division whose divisor varies is guarded by
  \<open>count === 0\<close>.
\<close>

definition pow2 :: "int \<Rightarrow> rat" where
  "pow2 e = (if 0 \<le> e then 2 ^ nat e else 1 / 2 ^ nat (- e))"

text \<open>
  The exponent of a positive rational \<open>x\<close>: the \<open>e\<close> with \<open>2 ^ e \<le> x < 2 ^ (e + 1)\<close>. For
  \<open>x = a / b\<close> it is the difference of the bit lengths of \<open>a\<close> and \<open>b\<close>, or one less.
\<close>

definition ilog2 :: "rat \<Rightarrow> int" where
  "ilog2 x =
     (case quotient_of x of (a, b) \<Rightarrow>
        let e = bitlen a - bitlen b
        in if pow2 e \<le> x then e else e - 1)"

text \<open>The nearest integer, a tie going to the even one.\<close>

definition roundEven :: "rat \<Rightarrow> int" where
  "roundEven m =
     (let n = \<lfloor>m\<rfloor>; d = m - of_int n
      in if d < 1 / 2 then n else if 1 / 2 < d then n + 1 else if even n then n else n + 1)"

text \<open>
  The double nearest to \<open>x\<close>: \<open>x\<close> is scaled so that its integer part has 53 bits, rounded to
  an integer and scaled back.
\<close>

definition fl :: "rat \<Rightarrow> rat" where
  "fl x =
     (if x = 0 then 0
      else let e = ilog2 \<bar>x\<bar> - 52
           in sgn x * of_int (roundEven (\<bar>x\<bar> / pow2 e)) * pow2 e)"

datatype jsnum = NaN | Num rat

fun jsAdd :: "jsnum \<Rightarrow> jsnum \<Rightarrow> jsnum" where
  "jsAdd (Num a) (Num b) = Num (fl (a + b))"
| "jsAdd _ _ = NaN"

fun jsMul :: "jsnum \<Rightarrow> jsnum \<Rightarrow> jsnum" where
  "jsMul (Num a) (Num b) = Num (fl (a * b))"
| "jsMul _ _ = NaN"

text \<open>\<open>x / n\<close> for a divisor \<open>n\<close> that is a positive integer at every call site.\<close>

fun jsDivNat :: "jsnum \<Rightarrow> nat \<Rightarrow> jsnum" where
  "jsDivNat (Num a) n = Num (fl (a / of_nat n))"
| "jsDivNat NaN n = NaN"

text \<open>\<open>x < y\<close>: every comparison with \<open>NaN\<close> is false.\<close>

fun jsLess :: "jsnum \<Rightarrow> jsnum \<Rightarrow> bool" where
  "jsLess (Num a) (Num b) = (a < b)"
| "jsLess _ _ = False"

fun Math_max :: "jsnum \<Rightarrow> jsnum \<Rightarrow> jsnum" where
  "Math_max (Num a) (Num b) = Num (max a b)"
| "Math_max _ _ = NaN"

fun Math_min :: "jsnum \<Rightarrow> jsnum \<Rightarrow> jsnum" where
  "Math_min (Num a) (Num b) = Num (min a b)"
| "Math_min _ _ = NaN"

text \<open>
  \<open>Math.round\<close> gives the integer nearest to the double itself, a tie going up: the floor of
  the exact \<open>x + 1/2\<close>.
\<close>

fun Math_round :: "jsnum \<Rightarrow> jsnum" where
  "Math_round (Num a) = Num (of_int \<lfloor>a + 1 / 2\<rfloor>)"
| "Math_round NaN = NaN"

fun showNat :: "nat \<Rightarrow> string" where
  "showNat n =
     (if n < 10 then [''0123456789'' ! n]
      else showNat (n div 10) @ [''0123456789'' ! (n mod 10)])"

declare showNat.simps [simp del]

definition showInt :: "int \<Rightarrow> string" where
  "showInt i = (if i < 0 then ''-'' @ showNat (nat (- i)) else showNat (nat i))"

text \<open>
  The text a template literal inserts for a number. The hook only formats results of
  \<open>Math.round\<close>, which are integers and print as their decimal digits.
\<close>

fun numToString :: "jsnum \<Rightarrow> string" where
  "numToString NaN = ''NaN''"
| "numToString (Num a) = showInt \<lfloor>a\<rfloor>"

section \<open>Colour helpers\<close>

definition clamp :: "jsnum \<Rightarrow> jsnum \<Rightarrow> jsnum \<Rightarrow> jsnum" where
  "clamp val mn mx = Math_max mn (Math_min mx val)"

definition toRgbTripletString :: "jsnum \<Rightarrow> jsnum \<Rightarrow> jsnum \<Rightarrow> string" where
  "toRgbTripletString r g b =
     numToString (Math_round r) @ '' '' @ numToString (Math_round g) @ '' '' @
     numToString (Math_round b)"

definition lighten :: "jsnum \<Rightarrow> jsnum" where
  "lighten c = clamp (jsAdd (jsMul c (Num (5 / 4))) (Num 20)) (Num 0) (Num 255)"

definition deriveSecondaryFromPrimary :: "jsnum \<Rightarrow> jsnum \<Rightarrow> jsnum \<Rightarrow> string" where
  "deriveSecondaryFromPrimary r g b = toRgbTripletString (lighten r) (lighten g) (lighten b)"

section \<open>Sampling the average colour\<close>

type_synonym triplet = "jsnum \<times> jsnum \<times> jsnum"

definition fallback :: triplet where
  "fallback = (Num 85, Num 37, Num 131)"

text \<open>
  What the browser does with one image: the load fails (\<open>onerror\<close>) or succeeds
  (\<open>onload\<close>), and then each canvas call either returns or throws.
\<close>

datatype exn = DOMException

record canvas =
  getContext :: bool
  drawImage :: "exn option"
  getImageData :: "exn + 8 word list"

datatype image_outcome = LoadError | Loaded canvas

text \<open>\<open>data[j]\<close> on the byte array; past the end it is \<open>undefined\<close>, \<open>NaN\<close> in arithmetic.\<close>

definition byteAt :: "8 word list \<Rightarrow> nat \<Rightarrow> jsnum" where
  "byteAt data j = (if j < length data then Num (of_nat (unat (data ! j))) else NaN)"

function averageLoop ::
  "8 word list \<Rightarrow> nat \<Rightarrow> jsnum \<times> jsnum \<times> jsnum \<times> nat \<Rightarrow> jsnum \<times> jsnum \<times> jsnum \<times> nat" where
  "averageLoop data i (r, g, b, count) =
     (if i < length data then
        (let alpha = jsDivNat (byteAt data (i + 3)) 255 in
         if jsLess alpha (Num (fl (1 / 10))) then averageLoop data (i + 4) (r, g, b, count)
         else averageLoop data (i + 4)
                (jsAdd r (byteAt data i), jsAdd g (byteAt data (i + 1)),
                 jsAdd b (byteAt data (i + 2)), count + 1))
      else (r, g, b, count))"
  by pat_completeness auto
termination
  by (relation "measure (\<lambda>(data, i, acc). length data - i)") auto

declare averageLoop.simps [simp del]

text \<open>The body of the \<open>try\<close> block of \<open>onload\<close>: \<open>Inl\<close> is a thrown exception.\<close>

definition sampleCanvas :: "canvas \<Rightarrow> exn + triplet" where
  "sampleCanvas cv =
     (if \<not> getContext cv then Inr fallback
      else case drawImage cv of
        Some e \<Rightarrow> Inl e
      | None \<Rightarrow>
          (case getImageData cv of
             Inl e \<Rightarrow> Inl e
           | Inr data \<Rightarrow>
               (case averageLoop data 0 (Num 0, Num 0, Num 0, 0) of
                  (r, g, b, count) \<Rightarrow>
                    if count = 0 then Inr fallback
                    else Inr (jsDivNat r count, jsDivNat g count, jsDivNat b count))))"

text \<open>\<open>onload\<close>: the \<open>try\<close> block with its \<open>catch\<close>.\<close>

definition onload :: "canvas \<Rightarrow> triplet" where
  "onload cv = (case sampleCanvas cv of Inl e \<Rightarrow> fallback | Inr t \<Rightarrow> t)"

text \<open>
  The promise of \<open>computeAverageColor\<close>: \<open>Inr\<close> is the value it resolves with, \<open>Inl\<close> a
  rejection.
\<close>

definition computeAverageColor :: "string \<Rightarrow> image_outcome \<Rightarrow> exn + triplet" where
  "computeAverageColor url outcome =
     (case outcome of LoadError \<Rightarrow> Inr fallback | Loaded cv \<Rightarrow> Inr (onload cv))"

section \<open>The hook and its browser\<close>

record BackgroundCycleOptions =
  intervalMs :: "nat option"
  crossfadeMs :: "nat option"

record props =
  imageUrls :: "string list"
  options :: "BackgroundCycleOptions option"

text \<open>The destructuring defaults of \<open>options || {}\<close>.\<close>

definition intervalMsOf :: "props \<Rightarrow> nat" where
  "intervalMsOf p =
     (case options p of None \<Rightarrow> 20000
      | Some opts \<Rightarrow> (case intervalMs opts of None \<Rightarrow> 20000 | Some n \<Rightarrow> n))"

definition crossfadeMsOf :: "props \<Rightarrow> nat" where
  "crossfadeMsOf p =
     (case options p of None \<Rightarrow> 800
      | Some opts \<Rightarrow> (case crossfadeMs opts of None \<Rightarrow> 800 | Some n \<Rightarrow> n))"

text \<open>
  The browser keeps one table of active timers for \<open>setInterval\<close> and \<open>setTimeout\<close>;
  handles are positive and never reused. An interval entry records the \<open>index\<close> its callback
  closed over and the time before which it cannot fire next; a timeout entry records the time
  before which it cannot fire (its callback is always \<open>() => setIsFading(false)\<close>).
\<close>

datatype timer = Interval nat nat | Timeout nat

text \<open>
  One run of the accent effect: the URL handed to \<open>computeAverageColor\<close> and the
  \<open>cancelled\<close> variable that the \<open>then\<close> callback and the cleanup share.
\<close>

record sample =
  url :: string
  cancelled :: bool

text \<open>
  The state of a mounted hook: its five state variables, its two refs, the sample of the
  latest accent-effect run, and the browser's clock, timers and pending samples.
\<close>

record world =
  index :: nat
  previousIndex :: "nat option"
  isFading :: bool
  accentPrimaryRgb :: string
  accentSecondaryRgb :: string
  timerRef :: "nat option"
  fadeRef :: "nat option"
  accentRun :: "nat option"
  now :: nat
  nextHandle :: nat
  timers :: "nat \<rightharpoonup> timer"
  nextSample :: nat
  samples :: "nat \<rightharpoonup> sample"

definition currentUrl :: "props \<Rightarrow> world \<Rightarrow> string option" where
  "currentUrl p w =
     (if length (imageUrls p) > 0 then Some (imageUrls p ! (index w mod length (imageUrls p)))
      else None)"

definition previousUrl :: "props \<Rightarrow> world \<Rightarrow> string option" where
  "previousUrl p w =
     (case previousIndex w of
        None \<Rightarrow> None
      | Some i \<Rightarrow>
          if length (imageUrls p) > 0 then Some (imageUrls p ! (i mod length (imageUrls p)))
          else None)"

text \<open>The value the hook returns from a render.\<close>

definition useBackgroundCycle ::
  "props \<Rightarrow> world \<Rightarrow> string option \<times> string option \<times> bool \<times> string \<times> string" where
  "useBackgroundCycle p w =
     (currentUrl p w, previousUrl p w, isFading w, accentPrimaryRgb w, accentSecondaryRgb w)"

subsection \<open>Timers\<close>

definition clearTimer :: "nat \<Rightarrow> world \<Rightarrow> world" where
  "clearTimer h w = w\<lparr>timers := (timers w)(h := None)\<rparr>"

text \<open>\<open>if (ref.current) window.clearTimeout(ref.current)\<close>: \<open>null\<close> and \<open>0\<close> are falsy.\<close>

definition clearIfSet :: "nat option \<Rightarrow> world \<Rightarrow> world" where
  "clearIfSet r w = (case r of None \<Rightarrow> w | Some h \<Rightarrow> if h \<noteq> 0 then clearTimer h w else w)"

definition setTimer :: "timer \<Rightarrow> world \<Rightarrow> nat \<times> world" where
  "setTimer t w =
     (nextHandle w, w\<lparr>timers := (timers w)(nextHandle w \<mapsto> t), nextHandle := nextHandle w + 1\<rparr>)"

subsection \<open>The cycle-timer effect\<close>

text \<open>The interval callback; \<open>c\<close> is the \<open>index\<close> it closed over.\<close>

definition onTick :: "props \<Rightarrow> nat \<Rightarrow> world \<Rightarrow> world" where
  "onTick p c w =
     (let w1 = w\<lparr>previousIndex := Some c, isFading := True,
                  index := (index w + 1) mod max 1 (length (imageUrls p))\<rparr>;
          w2 = clearIfSet (fadeRef w1) w1;
          (h, w3) = setTimer (Timeout (now w2 + crossfadeMsOf p)) w2
      in w3\<lparr>fadeRef := Some h\<rparr>)"

definition cycleEffect :: "props \<Rightarrow> world \<Rightarrow> world" where
  "cycleEffect p w =
     (let w1 = clearIfSet (timerRef w) w;
          (h, w2) = setTimer (Interval (index w1) (now w1 + intervalMsOf p)) w1
      in w2\<lparr>timerRef := Some h\<rparr>)"

definition cycleCleanup :: "world \<Rightarrow> world" where
  "cycleCleanup w = (let w1 = clearIfSet (timerRef w) w in clearIfSet (fadeRef w1) w1)"

subsection \<open>The accent effect\<close>

definition boost :: "jsnum \<Rightarrow> jsnum" where
  "boost c = clamp (jsMul c (Num (fl (21 / 20)))) (Num 0) (Num 255)"

text \<open>The \<open>then\<close> callback of a sample, run with the value the promise resolved with.\<close>

definition onSample :: "sample \<Rightarrow> triplet \<Rightarrow> world \<Rightarrow> world" where
  "onSample s t w =
     (case t of (r, g, b) \<Rightarrow>
        if cancelled s then w
        else
          (let pr = boost r; pg = boost g; pb = boost b
           in w\<lparr>accentPrimaryRgb := toRgbTripletString pr pg pb,
                accentSecondaryRgb := deriveSecondaryFromPrimary pr pg pb\<rparr>))"

text \<open>
  \<open>if (!currentUrl) return\<close>: \<open>null\<close> and the empty string are falsy; the effect then starts
  no sample and returns no cleanup.
\<close>

definition accentEffect :: "props \<Rightarrow> world \<Rightarrow> world" where
  "accentEffect p w =
     (case currentUrl p w of
        None \<Rightarrow> w\<lparr>accentRun := None\<rparr>
      | Some u \<Rightarrow>
          if u = [] then w\<lparr>accentRun := None\<rparr>
          else
            w\<lparr>samples := (samples w)(nextSample w \<mapsto> \<lparr>url = u, cancelled = False\<rparr>),
              accentRun := Some (nextSample w),
              nextSample := nextSample w + 1\<rparr>)"

definition accentCleanup :: "world \<Rightarrow> world" where
  "accentCleanup w =
     (case accentRun w of
        None \<Rightarrow> w
      | Some r \<Rightarrow>
          (case samples w r of
             None \<Rightarrow> w
           | Some s \<Rightarrow> w\<lparr>samples := (samples w)(r \<mapsto> s\<lparr>cancelled := True\<rparr>)\<rparr>))"

subsection \<open>Rendering and events\<close>

text \<open>
  After a callback has run, React renders again and re-runs each effect whose dependencies
  changed, cleanup first. \<open>w0\<close> is the state of the previous render. The properties are fixed,
  so of the cycle effect's dependencies only \<open>index\<close> can change. The preload effect touches
  no state of the hook and is left out.
\<close>

definition commit :: "props \<Rightarrow> world \<Rightarrow> world \<Rightarrow> world" where
  "commit p w0 w =
     (let w1 = (if index w \<noteq> index w0 then cycleEffect p (cycleCleanup w) else w)
      in if currentUrl p w1 \<noteq> currentUrl p w0 then accentEffect p (accentCleanup w1) else w1)"

definition initial :: world where
  "initial =
     \<lparr>index = 0, previousIndex = None, isFading = False,
      accentPrimaryRgb = ''85 37 131'', accentSecondaryRgb = ''253 185 39'',
      timerRef = None, fadeRef = None, accentRun = None,
      now = 0, nextHandle = 1, timers = Map.empty, nextSample = 0, samples = Map.empty\<rparr>"

text \<open>The first render, followed by the first run of both effects.\<close>

definition mount :: "props \<Rightarrow> world" where
  "mount p = accentEffect p (cycleEffect p initial)"

datatype event =
    Tick nat
  | FadeClear nat
  | SampleSettles nat image_outcome
  | Elapse nat

text \<open>A repeating timer that fires is scheduled again, one interval later.\<close>

definition rearm :: "props \<Rightarrow> nat \<Rightarrow> nat \<Rightarrow> world \<Rightarrow> world" where
  "rearm p h c w = w\<lparr>timers := (timers w)(h \<mapsto> Interval c (now w + intervalMsOf p))\<rparr>"

text \<open>
  One event of the browser's loop; \<open>None\<close> when the browser cannot deliver it: a timer that is
  not active or not yet due, a sample that is not pending.
\<close>

definition step :: "props \<Rightarrow> event \<Rightarrow> world \<Rightarrow> world option" where
  "step p e w =
     (case e of
        Tick h \<Rightarrow>
          (case timers w h of
             Some (Interval c due) \<Rightarrow>
               if due \<le> now w then Some (commit p w (onTick p c (rearm p h c w))) else None
           | _ \<Rightarrow> None)
      | FadeClear h \<Rightarrow>
          (case timers w h of
             Some (Timeout due) \<Rightarrow>
               if due \<le> now w then Some (commit p w ((clearTimer h w)\<lparr>isFading := False\<rparr>))
               else None
           | _ \<Rightarrow> None)
      | SampleSettles r outcome \<Rightarrow>
          (case samples w r of
             None \<Rightarrow> None
           | Some s \<Rightarrow>
               (let w1 = w\<lparr>samples := (samples w)(r := None)\<rparr> in
                case computeAverageColor (url s) outcome of
                  Inl x \<Rightarrow> Some w1
                | Inr t \<Rightarrow> Some (commit p w (onSample s t w1))))
      | Elapse d \<Rightarrow> Some (w\<lparr>now := now w + d\<rparr>))"

fun run :: "props \<Rightarrow> event list \<Rightarrow> world \<Rightarrow> world option" where
  "run p [] w = Some w"
| "run p (e # es) w = (case step p e w of None \<Rightarrow> None | Some w' \<Rightarrow> run p es w')"

fun isTick :: "event \<Rightarrow> bool" where
  "isTick (Tick h) = True"
| "isTick _ = False"

definition ticks :: "event list \<Rightarrow> nat" where
  "ticks es = length (filter isTick es)"

section \<open>The specification's words\<close>

text \<open>
  The secondary channel as the specification words it: \<open>clamp(c * 1.25 + 20, 0, 255)\<close>,
  rounded to the nearest integer. Read as a formula over the exact numbers it is
  \<open>spec_lighten\<close>; read as double arithmetic, where the product and the sum are each rounded
  to a double, it is \<open>spec_lighten_double\<close>.
\<close>

definition spec_lighten :: "rat \<Rightarrow> int" where
  "spec_lighten c = round (max 0 (min 255 (c * 1.25 + 20)))"

definition spec_lighten_double :: "rat \<Rightarrow> int" where
  "spec_lighten_double c = round (max 0 (min 255 (fl (fl (c * 1.25) + 20))))"

section \<open>Invariants of the reachable states\<close>

text \<open>
  Every pending sample has a handle below \<open>nextSample\<close>, and one that is not cancelled is the
  sample of the latest accent-effect run and was started for the URL \<open>u\<close>.
\<close>

definition samplesFor :: "string option \<Rightarrow> world \<Rightarrow> bool" where
  "samplesFor u w \<longleftrightarrow>
     (\<forall>r s. samples w r = Some s \<longrightarrow>
        r < nextSample w \<and> (\<not> cancelled s \<longrightarrow> accentRun w = Some r \<and> u = Some (url s))) \<and>
     (\<forall>r. accentRun w = Some r \<longrightarrow> r < nextSample w)"

definition samplesInv :: "props \<Rightarrow> world \<Rightarrow> bool" where
  "samplesInv p w \<longleftrightarrow> samplesFor (currentUrl p w) w"

text \<open>
  \<open>timerRef\<close> holds the one active interval, whose callback closed over the current
  \<open>index\<close>; any other active timer is a timeout, and \<open>fadeRef\<close> holds its handle.
\<close>

definition timersInv :: "world \<Rightarrow> bool" where
  "timersInv w \<longleftrightarrow>
     (\<exists>h due. timerRef w = Some h \<and> 0 < h \<and> h < nextHandle w \<and> fadeRef w \<noteq> Some h \<and>
        timers w h = Some (Interval (index w) due) \<and>
        (\<forall>k. k \<noteq> h \<longrightarrow>
           timers w k = None \<or> (\<exists>d. timers w k = Some (Timeout d) \<and> fadeRef w = Some k))) \<and>
     (\<forall>f. fadeRef w = Some f \<longrightarrow> 0 < f \<and> f < nextHandle w)"

definition noTimeout :: "world \<Rightarrow> bool" where
  "noTimeout w \<longleftrightarrow> (\<forall>k d. timers w k \<noteq> Some (Timeout d))"

text \<open>The pair the hook returns is the default pair or a primary with its derived secondary.\<close>

definition accentPair :: "world \<Rightarrow> bool" where
  "accentPair w \<longleftrightarrow>
     accentPrimaryRgb w = ''85 37 131'' \<and> accentSecondaryRgb w = ''253 185 39'' \<or>
     (\<exists>pr pg pb. accentPrimaryRgb w = toRgbTripletString pr pg pb \<and>
        accentSecondaryRgb w = deriveSecondaryFromPrimary pr pg pb)"

definition allStale :: "world \<Rightarrow> bool" where
  "allStale w \<longleftrightarrow> (\<forall>r s. samples w r = Some s \<longrightarrow> cancelled s)"

text \<open>
  After a tick at a time whose fade-clear is due at \<open>T\<close>: the flag is still set and every
  pending timeout is due at \<open>T\<close> or later, or the time \<open>T\<close> has been reached.
\<close>

definition fadePending :: "nat \<Rightarrow> world \<Rightarrow> bool" where
  "fadePending T w \<longleftrightarrow>
     (isFading w \<and> (\<forall>k d. timers w k = Some (Timeout d) \<longrightarrow> T \<le> d)) \<or> T \<le> now w"

section \<open>Example inputs\<close>

definition noImages :: props where
  "noImages = \<lparr>imageUrls = [], options = None\<rparr>"

definition oneImage :: props where
  "oneImage = \<lparr>imageUrls = [''a''], options = None\<rparr>"

definition twoImages :: props where
  "twoImages = \<lparr>imageUrls = [''a'', ''b''], options = None\<rparr>"

definition threeImages :: props where
  "threeImages = \<lparr>imageUrls = [''a'', ''b'', ''c''], options = None\<rparr>"

text \<open>A canvas whose single pixel is opaque red.\<close>

definition redPixel :: image_outcome where
  "redPixel = Loaded \<lparr>getContext = True, drawImage = None, getImageData = Inr [255, 0, 0, 255]\<rparr>"

definition noContext :: canvas where
  "noContext = \<lparr>getContext = False, drawImage = None, getImageData = Inr []\<rparr>"

text \<open>A canvas on which reading the pixels throws.\<close>

definition throwingCanvas :: canvas where
  "throwingCanvas = \<lparr>getContext = True, drawImage = None, getImageData = Inl DOMException\<rparr>"

text \<open>Two pixels, with alpha 0 and 25 (of 255).\<close>

definition transparentCanvas :: canvas where
  "transparentCanvas =
     \<lparr>getContext = True, drawImage = None, getImageData = Inr [1, 2, 3, 0, 9, 9, 9, 25]\<rparr>"

section \<open>What each operation leaves unchanged\<close>

lemma clearTimer_fields [simp]:
  "index (clearTimer h w) = index w"
  "previousIndex (clearTimer h w) = previousIndex w"
  "isFading (clearTimer h w) = isFading w"
  "accentPrimaryRgb (clearTimer h w) = accentPrimaryRgb w"
  "accentSecondaryRgb (clearTimer h w) = accentSecondaryRgb w"
  "timerRef (clearTimer h w) = timerRef w"
  "fadeRef (clearTimer h w) = fadeRef w"
  "accentRun (clearTimer h w) = accentRun w"
  "now (clearTimer h w) = now w"
  "nextHandle (clearTimer h w) = nextHandle w"
  "nextSample (clearTimer h w) = nextSample w"
  "samples (clearTimer h w) = samples w"
  by (simp_all add: clearTimer_def)

lemma clearIfSet_fields [simp]:
  "index (clearIfSet r w) = index w"
  "previousIndex (clearIfSet r w) = previousIndex w"
  "isFading (clearIfSet r w) = isFading w"
  "accentPrimaryRgb (clearIfSet r w) = accentPrimaryRgb w"
  "accentSecondaryRgb (clearIfSet r w) = accentSecondaryRgb w"
  "timerRef (clearIfSet r w) = timerRef w"
  "fadeRef (clearIfSet r w) = fadeRef w"
  "accentRun (clearIfSet r w) = accentRun w"
  "now (clearIfSet r w) = now w"
  "nextHandle (clearIfSet r w) = nextHandle w"
  "nextSample (clearIfSet r w) = nextSample w"
  "samples (clearIfSet r w) = samples w"
  by (simp_all add: clearIfSet_def clearTimer_def split: option.splits)

lemma onTick_fields [simp]:
  "index (onTick p c w) = (index w + 1) mod max 1 (length (imageUrls p))"
  "previousIndex (onTick p c w) = Some c"
  "isFading (onTick p c w) = True"
  "accentPrimaryRgb (onTick p c w) = accentPrimaryRgb w"
  "accentSecondaryRgb (onTick p c w) = accentSecondaryRgb w"
  "timerRef (onTick p c w) = timerRef w"
  "fadeRef (onTick p c w) = Some (nextHandle w)"
  "accentRun (onTick p c w) = accentRun w"
  "now (onTick p c w) = now w"
  "nextHandle (onTick p c w) = nextHandle w + 1"
  "nextSample (onTick p c w) = nextSample w"
  "samples (onTick p c w) = samples w"
  by (simp_all add: onTick_def setTimer_def Let_def)

lemma rearm_fields [simp]:
  "index (rearm p h c w) = index w"
  "previousIndex (rearm p h c w) = previousIndex w"
  "isFading (rearm p h c w) = isFading w"
  "accentPrimaryRgb (rearm p h c w) = accentPrimaryRgb w"
  "accentSecondaryRgb (rearm p h c w) = accentSecondaryRgb w"
  "timerRef (rearm p h c w) = timerRef w"
  "fadeRef (rearm p h c w) = fadeRef w"
  "accentRun (rearm p h c w) = accentRun w"
  "now (rearm p h c w) = now w"
  "nextHandle (rearm p h c w) = nextHandle w"
  "nextSample (rearm p h c w) = nextSample w"
  "samples (rearm p h c w) = samples w"
  by (simp_all add: rearm_def)

lemma cycleCleanup_fields [simp]:
  "index (cycleCleanup w) = index w"
  "previousIndex (cycleCleanup w) = previousIndex w"
  "isFading (cycleCleanup w) = isFading w"
  "accentPrimaryRgb (cycleCleanup w) = accentPrimaryRgb w"
  "accentSecondaryRgb (cycleCleanup w) = accentSecondaryRgb w"
  "timerRef (cycleCleanup w) = timerRef w"
  "fadeRef (cycleCleanup w) = fadeRef w"
  "accentRun (cycleCleanup w) = accentRun w"
  "now (cycleCleanup w) = now w"
  "nextHandle (cycleCleanup w) = nextHandle w"
  "nextSample (cycleCleanup w) = nextSample w"
  "samples (cycleCleanup w) = samples w"
  by (simp_all add: cycleCleanup_def Let_def)

lemma cycleEffect_fields [simp]:
  "index (cycleEffect p w) = index w"
  "previousIndex (cycleEffect p w) = previousIndex w"
  "isFading (cycleEffect p w) = isFading w"
  "accentPrimaryRgb (cycleEffect p w) = accentPrimaryRgb w"
  "accentSecondaryRgb (cycleEffect p w) = accentSecondaryRgb w"
  "timerRef (cycleEffect p w) = Some (nextHandle w)"
  "fadeRef (cycleEffect p w) = fadeRef w"
  "accentRun (cycleEffect p w) = accentRun w"
  "now (cycleEffect p w) = now w"
  "nextHandle (cycleEffect p w) = nextHandle w + 1"
  "nextSample (cycleEffect p w) = nextSample w"
  "samples (cycleEffect p w) = samples w"
  by (simp_all add: cycleEffect_def setTimer_def Let_def)

lemma currentUrl_index: "index w' = index w \<Longrightarrow> currentUrl p w' = currentUrl p w"
  by (simp add: currentUrl_def)

lemma accentCleanup_fields [simp]:
  "index (accentCleanup w) = index w"
  "previousIndex (accentCleanup w) = previousIndex w"
  "isFading (accentCleanup w) = isFading w"
  "accentPrimaryRgb (accentCleanup w) = accentPrimaryRgb w"
  "accentSecondaryRgb (accentCleanup w) = accentSecondaryRgb w"
  "timerRef (accentCleanup w) = timerRef w"
  "fadeRef (accentCleanup w) = fadeRef w"
  "accentRun (accentCleanup w) = accentRun w"
  "now (accentCleanup w) = now w"
  "nextHandle (accentCleanup w) = nextHandle w"
  "timers (accentCleanup w) = timers w"
  "nextSample (accentCleanup w) = nextSample w"
  by (simp_all add: accentCleanup_def split: option.splits)

lemma accentEffect_fields [simp]:
  "index (accentEffect p w) = index w"
  "previousIndex (accentEffect p w) = previousIndex w"
  "isFading (accentEffect p w) = isFading w"
  "accentPrimaryRgb (accentEffect p w) = accentPrimaryRgb w"
  "accentSecondaryRgb (accentEffect p w) = accentSecondaryRgb w"
  "timerRef (accentEffect p w) = timerRef w"
  "fadeRef (accentEffect p w) = fadeRef w"
  "now (accentEffect p w) = now w"
  "nextHandle (accentEffect p w) = nextHandle w"
  "timers (accentEffect p w) = timers w"
  by (simp_all add: accentEffect_def split: option.splits)

lemma onSample_fields [simp]:
  "index (onSample s t w) = index w"
  "previousIndex (onSample s t w) = previousIndex w"
  "isFading (onSample s t w) = isFading w"
  "timerRef (onSample s t w) = timerRef w"
  "fadeRef (onSample s t w) = fadeRef w"
  "accentRun (onSample s t w) = accentRun w"
  "now (onSample s t w) = now w"
  "nextHandle (onSample s t w) = nextHandle w"
  "timers (onSample s t w) = timers w"
  "nextSample (onSample s t w) = nextSample w"
  "samples (onSample s t w) = samples w"
  by (simp_all add: onSample_def Let_def split: prod.splits)

lemma commit_fields [simp]:
  "index (commit p w0 w) = index w"
  "previousIndex (commit p w0 w) = previousIndex w"
  "isFading (commit p w0 w) = isFading w"
  "accentPrimaryRgb (commit p w0 w) = accentPrimaryRgb w"
  "accentSecondaryRgb (commit p w0 w) = accentSecondaryRgb w"
  "fadeRef (commit p w0 w) = fadeRef w"
  "now (commit p w0 w) = now w"
  by (simp_all add: commit_def Let_def)

lemma commit_same: "index w = index w0 \<Longrightarrow> commit p w0 w = w"
  by (simp add: commit_def Let_def currentUrl_def)

lemma mount_fields [simp]:
  "index (mount p) = 0"
  "previousIndex (mount p) = None"
  "isFading (mount p) = False"
  "accentPrimaryRgb (mount p) = ''85 37 131''"
  "accentSecondaryRgb (mount p) = ''253 185 39''"
  "fadeRef (mount p) = None"
  "timerRef (mount p) = Some 1"
  "now (mount p) = 0"
  "nextHandle (mount p) = 2"
  by (simp_all add: mount_def initial_def)

lemma step_index:
  "step p e w = Some w' \<Longrightarrow>
   index w' = (if isTick e then (index w + 1) mod max 1 (length (imageUrls p)) else index w)"
  by (cases e)
     (auto simp: step_def Let_def split: option.splits timer.splits if_splits sum.splits)

lemma run_index:
  "run p es w = Some w' \<Longrightarrow> index w < max 1 (length (imageUrls p)) \<Longrightarrow>
   index w' = (index w + ticks es) mod max 1 (length (imageUrls p))"
proof (induction es arbitrary: w)
  case Nil
  then show ?case by (simp add: ticks_def)
next
  case (Cons e es)
  from Cons.prems(1) obtain w1 where s: "step p e w = Some w1" and r: "run p es w1 = Some w'"
    by (auto split: option.splits)
  let ?L = "max 1 (length (imageUrls p))"
  have i1: "index w1 = (if isTick e then (index w + 1) mod ?L else index w)"
    using step_index [OF s] .
  have lt: "index w1 < ?L" using i1 Cons.prems(2) by auto
  have "index w' = (index w1 + ticks es) mod ?L" using Cons.IH [OF r lt] .
  then show ?case using i1 by (auto simp: ticks_def mod_simps)
qed

section \<open>The timer table after each operation\<close>

lemma timers_clearIfSet:
  "timers (clearIfSet r w) =
     (case r of None \<Rightarrow> timers w | Some h \<Rightarrow> if h \<noteq> 0 then (timers w)(h := None) else timers w)"
  by (simp add: clearIfSet_def clearTimer_def split: option.splits)

lemma timers_rearm: "timers (rearm p h c w) = (timers w)(h \<mapsto> Interval c (now w + intervalMsOf p))"
  by (simp add: rearm_def)

lemma timers_onTick:
  "timers (onTick p c w) =
     (timers (clearIfSet (fadeRef w) w))(nextHandle w \<mapsto> Timeout (now w + crossfadeMsOf p))"
  by (simp add: onTick_def setTimer_def Let_def timers_clearIfSet split: option.splits)

lemma timers_cycleEffect:
  "timers (cycleEffect p w) =
     (timers (clearIfSet (timerRef w) w))(nextHandle w \<mapsto> Interval (index w) (now w + intervalMsOf p))"
  by (simp add: cycleEffect_def setTimer_def Let_def)

lemma timers_cycleCleanup:
  "timers (cycleCleanup w) = timers (clearIfSet (fadeRef w) (clearIfSet (timerRef w) w))"
  by (simp add: cycleCleanup_def Let_def)

lemma commit_fields2:
  "timers (commit p w0 w) =
     (if index w \<noteq> index w0 then timers (cycleEffect p (cycleCleanup w)) else timers w)"
  "timerRef (commit p w0 w) = (if index w \<noteq> index w0 then Some (nextHandle w) else timerRef w)"
  "nextHandle (commit p w0 w) = (if index w \<noteq> index w0 then nextHandle w + 1 else nextHandle w)"
  by (simp_all add: commit_def Let_def)

lemma timers_mount: "timers (mount p) = [1 \<mapsto> Interval 0 (intervalMsOf p)]"
  by (simp add: mount_def initial_def timers_cycleEffect timers_clearIfSet)

lemmas timers_simps = timers_clearIfSet timers_rearm timers_onTick timers_cycleEffect
  timers_cycleCleanup commit_fields2

lemmas exec_simps = step_def timers_clearIfSet timers_rearm timers_onTick timers_cycleEffect
  timers_cycleCleanup commit_fields2 timers_mount intervalMsOf_def crossfadeMsOf_def clearTimer_def

section \<open>Pending samples\<close>

lemma samples_accentCleanup:
  "samples (accentCleanup w) =
     (case accentRun w of
        None \<Rightarrow> samples w
      | Some r \<Rightarrow>
          (case samples w r of
             None \<Rightarrow> samples w
           | Some s \<Rightarrow> (samples w)(r \<mapsto> s\<lparr>cancelled := True\<rparr>)))"
  by (simp add: accentCleanup_def split: option.splits)

lemma accentEffect_fields2:
  "samples (accentEffect p w) =
     (case currentUrl p w of
        None \<Rightarrow> samples w
      | Some u \<Rightarrow>
          if u = [] then samples w
          else (samples w)(nextSample w \<mapsto> \<lparr>url = u, cancelled = False\<rparr>))"
  "accentRun (accentEffect p w) =
     (case currentUrl p w of
        None \<Rightarrow> None
      | Some u \<Rightarrow> if u = [] then None else Some (nextSample w))"
  "nextSample (accentEffect p w) =
     (case currentUrl p w of
        None \<Rightarrow> nextSample w
      | Some u \<Rightarrow> if u = [] then nextSample w else nextSample w + 1)"
  by (simp_all add: accentEffect_def split: option.splits)

lemma currentUrl_ops [simp]:
  "currentUrl p (clearTimer h w) = currentUrl p w"
  "currentUrl p (clearIfSet r w) = currentUrl p w"
  "currentUrl p (rearm p h c w) = currentUrl p w"
  "currentUrl p (cycleCleanup w) = currentUrl p w"
  "currentUrl p (cycleEffect p w) = currentUrl p w"
  "currentUrl p (accentCleanup w) = currentUrl p w"
  "currentUrl p (accentEffect p w) = currentUrl p w"
  "currentUrl p (onSample s t w) = currentUrl p w"
  "currentUrl p (commit p w0 w) = currentUrl p w"
  by (simp_all add: currentUrl_def)

lemma commit_accent:
  "samples (commit p w0 w) =
     (if currentUrl p w \<noteq> currentUrl p w0 then samples (accentEffect p (accentCleanup w))
      else samples w)"
  "accentRun (commit p w0 w) =
     (if currentUrl p w \<noteq> currentUrl p w0 then accentRun (accentEffect p (accentCleanup w))
      else accentRun w)"
  "nextSample (commit p w0 w) =
     (if currentUrl p w \<noteq> currentUrl p w0 then nextSample (accentEffect p (accentCleanup w))
      else nextSample w)"
  by (auto simp: commit_def Let_def accentEffect_fields2 samples_accentCleanup
           split: option.splits)

lemma samplesInv_mount: "samplesInv p (mount p)"
  by (auto simp: samplesInv_def samplesFor_def mount_def initial_def accentEffect_fields2
           split: option.splits if_splits)

lemma samplesForD1: "samplesFor u w \<Longrightarrow> samples w r = Some s \<Longrightarrow> r < nextSample w"
  by (simp add: samplesFor_def)

lemma samplesForD2:
  "samplesFor u w \<Longrightarrow> samples w r = Some s \<Longrightarrow> \<not> cancelled s \<Longrightarrow>
   accentRun w = Some r \<and> u = Some (url s)"
  by (simp add: samplesFor_def)

lemma accentCleanup_stale:
  assumes inv: "samplesFor u w" and a: "samples (accentCleanup w) r = Some s"
  shows "r < nextSample w \<and> cancelled s"
proof (cases "samples w r")
  case None
  with a show ?thesis
    by (auto simp: samples_accentCleanup split: option.splits if_splits)
next
  case (Some s0)
  have lt: "r < nextSample w" using samplesForD1 [OF inv Some] .
  have "cancelled s"
  proof (cases "accentRun w = Some r")
    case True
    with a Some show ?thesis by (auto simp: samples_accentCleanup)
  next
    case False
    with a Some have "s = s0"
      by (auto simp: samples_accentCleanup split: option.splits if_splits)
    with samplesForD2 [OF inv Some] False show ?thesis by auto
  qed
  with lt show ?thesis by simp
qed

lemma samplesFor_accent:
  assumes inv: "samplesFor u w"
  shows "samplesFor (currentUrl p w) (accentEffect p (accentCleanup w))"
proof -
  let ?c = "accentCleanup w"
  note c1 = accentCleanup_stale [OF inv]
  show ?thesis
    unfolding samplesFor_def
  proof (intro conjI allI impI)
    fix r s assume a: "samples (accentEffect p ?c) r = Some s"
    show "r < nextSample (accentEffect p ?c)"
      using a c1 by (auto simp: accentEffect_fields2 less_Suc_eq split: option.splits if_splits)
  next
    fix r s assume a: "samples (accentEffect p ?c) r = Some s" and nc: "\<not> cancelled s"
    show "accentRun (accentEffect p ?c) = Some r"
      using a nc c1 by (auto simp: accentEffect_fields2 split: option.splits if_splits)
    show "currentUrl p w = Some (url s)"
      using a nc c1 by (auto simp: accentEffect_fields2 split: option.splits if_splits)
  next
    fix r assume "accentRun (accentEffect p ?c) = Some r"
    then show "r < nextSample (accentEffect p ?c)"
      by (auto simp: accentEffect_fields2 split: option.splits)
  qed
qed

lemma samplesFor_cong:
  "samplesFor u w \<Longrightarrow> samples w' = samples w \<Longrightarrow> nextSample w' = nextSample w \<Longrightarrow>
   accentRun w' = accentRun w \<Longrightarrow> samplesFor u w'"
  unfolding samplesFor_def by simp

lemma samplesInv_commit:
  assumes "samplesFor (currentUrl p w0) w"
  shows "samplesInv p (commit p w0 w)"
proof (cases "currentUrl p w = currentUrl p w0")
  case True
  have "samplesFor (currentUrl p w) (commit p w0 w)"
    by (rule samplesFor_cong [OF assms [folded True]]) (simp_all add: commit_accent True)
  then show ?thesis by (simp add: samplesInv_def)
next
  case False
  have "samplesFor (currentUrl p w) (accentEffect p (accentCleanup w))"
    by (rule samplesFor_accent [OF assms])
  then have "samplesFor (currentUrl p w) (commit p w0 w)"
    by (rule samplesFor_cong) (simp_all add: commit_accent False)
  then show ?thesis by (simp add: samplesInv_def)
qed

lemma samplesFor_remove:
  assumes "samplesFor u w"
  shows "samplesFor u (w\<lparr>samples := (samples w)(r := None)\<rparr>)"
  using assms unfolding samplesFor_def by auto

lemma computeAverageColor_value:
  "computeAverageColor u outcome =
     Inr (case outcome of LoadError \<Rightarrow> fallback | Loaded cv \<Rightarrow> onload cv)"
  by (simp add: computeAverageColor_def split: image_outcome.splits)

lemma computeAverageColor_Inr: "\<exists>t. computeAverageColor u outcome = Inr t"
  unfolding computeAverageColor_value by (rule exI) (rule refl)

lemma samplesInv_cong:
  assumes "samplesInv p w" and "samples w' = samples w" and "nextSample w' = nextSample w"
    and "accentRun w' = accentRun w" and "index w' = index w"
  shows "samplesInv p w'"
proof -
  have "samplesFor (currentUrl p w) w'"
    using assms(1) unfolding samplesInv_def by (rule samplesFor_cong) (rule assms)+
  then show ?thesis
    unfolding samplesInv_def currentUrl_index [OF assms(5)] .
qed

lemma step_Tick:
  "step p (Tick h) w = Some w' \<Longrightarrow>
   \<exists>c due. timers w h = Some (Interval c due) \<and> due \<le> now w \<and>
     w' = commit p w (onTick p c (rearm p h c w))"
  by (auto simp: step_def split: option.splits timer.splits if_splits)

lemma step_FadeClear:
  "step p (FadeClear h) w = Some w' \<Longrightarrow>
   \<exists>due. timers w h = Some (Timeout due) \<and> due \<le> now w \<and>
     w' = (clearTimer h w)\<lparr>isFading := False\<rparr>"
  by (auto simp: step_def commit_same split: option.splits timer.splits if_splits)

lemma step_SampleSettles:
  assumes "step p (SampleSettles r outcome) w = Some w'"
  shows "\<exists>s t. samples w r = Some s \<and> computeAverageColor (url s) outcome = Inr t \<and>
     w' = onSample s t (w\<lparr>samples := (samples w)(r := None)\<rparr>)"
proof -
  from assms obtain s where s: "samples w r = Some s"
    by (auto simp: step_def split: option.splits)
  obtain t where t: "computeAverageColor (url s) outcome = Inr t"
    using computeAverageColor_Inr by blast
  from assms s t have "w' = onSample s t (w\<lparr>samples := (samples w)(r := None)\<rparr>)"
    by (simp add: step_def Let_def commit_same)
  with s t show ?thesis by blast
qed

lemma step_Elapse: "step p (Elapse d) w = Some w' \<Longrightarrow> w' = w\<lparr>now := now w + d\<rparr>"
  by (simp add: step_def)

lemma samplesInv_step:
  assumes inv: "samplesInv p w" and st: "step p e w = Some w'"
  shows "samplesInv p w'"
proof (cases e)
  case (Tick h)
  with step_Tick st obtain c where w': "w' = commit p w (onTick p c (rearm p h c w))"
    by blast
  have "samplesFor (currentUrl p w) (onTick p c (rearm p h c w))"
    by (rule samplesFor_cong [OF inv [unfolded samplesInv_def]]) simp_all
  then show ?thesis unfolding w' by (rule samplesInv_commit)
next
  case (FadeClear h)
  with step_FadeClear st have w': "w' = (clearTimer h w)\<lparr>isFading := False\<rparr>"
    by blast
  show ?thesis by (rule samplesInv_cong [OF inv]) (simp_all add: w')
next
  case (SampleSettles r outcome)
  let ?w1 = "w\<lparr>samples := (samples w)(r := None)\<rparr>"
  from SampleSettles step_SampleSettles st obtain s t where w': "w' = onSample s t ?w1"
    by blast
  have "samplesFor (currentUrl p w) ?w1"
    by (rule samplesFor_remove [OF inv [unfolded samplesInv_def]])
  then have "samplesInv p ?w1"
    by (simp add: samplesInv_def currentUrl_index [of ?w1 w p])
  then show ?thesis by (rule samplesInv_cong) (simp_all add: w')
next
  case (Elapse d)
  with st have w': "w' = w\<lparr>now := now w + d\<rparr>" by (simp add: step_def)
  show ?thesis by (rule samplesInv_cong [OF inv]) (simp_all add: w')
qed

lemma samplesInv_run:
  "samplesInv p w \<Longrightarrow> run p es w = Some w' \<Longrightarrow> samplesInv p w'"
  by (induction es arbitrary: w) (auto split: option.splits dest: samplesInv_step)

lemma samplesInv_reachable: "run p es (mount p) = Some w \<Longrightarrow> samplesInv p w"
  using samplesInv_run [OF samplesInv_mount] .

section \<open>Active timers\<close>

lemma timersInv_mount: "timersInv (mount p)"
  by (simp add: timersInv_def timers_mount)

lemma timersInv_interval:
  assumes "timersInv w" and "timers w h = Some (Interval c due)"
  shows "timerRef w = Some h \<and> c = index w \<and> 0 < h \<and> h < nextHandle w \<and> fadeRef w \<noteq> Some h"
  using assms unfolding timersInv_def by (metis option.inject option.distinct(1) timer.inject(1) timer.distinct(1))

lemma timersInv_timeout:
  assumes "timersInv w" and "timers w k = Some (Timeout d)"
  shows "fadeRef w = Some k \<and> timerRef w \<noteq> Some k"
  using assms unfolding timersInv_def by (metis option.inject option.distinct(1) timer.distinct(1))

lemma timersInv_others:
  assumes "timersInv w" and "timerRef w \<noteq> Some k" and "fadeRef w \<noteq> Some k"
  shows "timers w k = None"
  using assms unfolding timersInv_def by metis

lemma timersInv_fadeRef:
  assumes "timersInv w" and "fadeRef w = Some f"
  shows "0 < f \<and> f < nextHandle w"
  using assms unfolding timersInv_def by metis

lemma tick_timers_changed:
  assumes inv: "timersInv w" and tm: "timers w h = Some (Interval c due)"
    and w': "w' = commit p w (onTick p c (rearm p h c w))"
    and ch: "index w' \<noteq> index w"
  shows "timerRef w' = Some (nextHandle w + 1)"
    and "nextHandle w' = nextHandle w + 2"
    and "timers w' k =
          (if k = nextHandle w + 1 then Some (Interval (index w') (now w + intervalMsOf p))
           else None)"
proof -
  note i = timersInv_interval [OF inv tm]
  from ch have ch': "(index w + 1) mod max 1 (length (imageUrls p)) \<noteq> index w"
    by (simp add: w')
  show "timerRef w' = Some (nextHandle w + 1)" "nextHandle w' = nextHandle w + 2"
    using ch' by (simp_all add: w' commit_fields2)
  have other: "k \<noteq> h \<Longrightarrow> fadeRef w \<noteq> Some k \<Longrightarrow> timers w k = None"
    using timersInv_others [OF inv, of k] i by simp
  have fr: "\<And>f. fadeRef w = Some f \<Longrightarrow> f \<noteq> 0"
    using timersInv_fadeRef [OF inv] by auto
  show "timers w' k =
          (if k = nextHandle w + 1 then Some (Interval (index w') (now w + intervalMsOf p))
           else None)"
    using ch' i other fr
    by (auto simp: w' timers_simps split: option.splits)
qed

lemma tick_timers_same:
  assumes inv: "timersInv w" and tm: "timers w h = Some (Interval c due)"
    and w': "w' = commit p w (onTick p c (rearm p h c w))"
    and same: "index w' = index w"
  shows "timerRef w' = Some h"
    and "nextHandle w' = nextHandle w + 1"
    and "timers w' k =
          (if k = nextHandle w then Some (Timeout (now w + crossfadeMsOf p))
           else if k = h then Some (Interval (index w') (now w + intervalMsOf p))
           else None)"
proof -
  note i = timersInv_interval [OF inv tm]
  from same have same': "(index w + 1) mod max 1 (length (imageUrls p)) = index w"
    by (simp add: w')
  show "timerRef w' = Some h" "nextHandle w' = nextHandle w + 1"
    using same' i by (simp_all add: w' commit_fields2)
  have other: "k \<noteq> h \<Longrightarrow> fadeRef w \<noteq> Some k \<Longrightarrow> timers w k = None"
    using timersInv_others [OF inv, of k] i by simp
  have fr: "\<And>f. fadeRef w = Some f \<Longrightarrow> f \<noteq> 0"
    using timersInv_fadeRef [OF inv] by auto
  show "timers w' k =
          (if k = nextHandle w then Some (Timeout (now w + crossfadeMsOf p))
           else if k = h then Some (Interval (index w') (now w + intervalMsOf p))
           else None)"
    using same' i other fr
    by (auto simp: w' timers_simps split: option.splits)
qed

lemma timersInv_step:
  assumes inv: "timersInv w" and st: "step p e w = Some w'"
  shows "timersInv w'"
proof (cases e)
  case (Tick h)
  with step_Tick st obtain c due where tm: "timers w h = Some (Interval c due)"
    and w': "w' = commit p w (onTick p c (rearm p h c w))"
    by blast
  note i = timersInv_interval [OF inv tm]
  have fr: "fadeRef w' = Some (nextHandle w)" by (simp add: w')
  show ?thesis
  proof (cases "index w' = index w")
    case True
    note t = tick_timers_same [OF inv tm w' True]
    show ?thesis
      unfolding timersInv_def
      using i by (auto simp: t fr)
  next
    case False
    note t = tick_timers_changed [OF inv tm w' False]
    show ?thesis
      unfolding timersInv_def
      using i by (auto simp: t fr)
  qed
next
  case (FadeClear h)
  with step_FadeClear st obtain due where tm: "timers w h = Some (Timeout due)"
    and w': "w' = (clearTimer h w)\<lparr>isFading := False\<rparr>"
    by blast
  note f = timersInv_timeout [OF inv tm]
  show ?thesis
    using inv f unfolding timersInv_def w'
    by (auto simp: clearTimer_def)
next
  case (SampleSettles r outcome)
  with step_SampleSettles st obtain s t
    where w': "w' = onSample s t (w\<lparr>samples := (samples w)(r := None)\<rparr>)"
    by blast
  show ?thesis using inv unfolding timersInv_def w' by simp
next
  case (Elapse d)
  with st have w': "w' = w\<lparr>now := now w + d\<rparr>" by (simp add: step_def)
  show ?thesis using inv unfolding timersInv_def w' by simp
qed

lemma timersInv_run: "timersInv w \<Longrightarrow> run p es w = Some w' \<Longrightarrow> timersInv w'"
  by (induction es arbitrary: w) (auto split: option.splits dest: timersInv_step)

lemma timersInv_reachable: "run p es (mount p) = Some w \<Longrightarrow> timersInv w"
  using timersInv_run [OF timersInv_mount] .

section \<open>The fade flag with two or more images\<close>

lemma index_bound:
  assumes "run p es (mount p) = Some w"
  shows "index w < max 1 (length (imageUrls p))"
proof -
  have "index w = (index (mount p) + ticks es) mod max 1 (length (imageUrls p))"
    by (rule run_index [OF assms]) simp
  then show ?thesis by simp
qed

lemma next_index_differs:
  assumes "2 \<le> L" and "i < L"
  shows "(i + 1) mod max 1 L \<noteq> (i::nat)"
proof (cases "i + 1 < L")
  case True
  then show ?thesis by simp
next
  case False
  with assms have "i + 1 = L" by simp
  with assms show ?thesis by (auto simp: max_def)
qed

lemma stuck_step:
  assumes inv: "timersInv w" and L: "2 \<le> length (imageUrls p)"
    and i: "index w < length (imageUrls p)" and nt: "noTimeout w"
    and st: "step p e w = Some w'"
  shows "noTimeout w' \<and> isFading w' = (isFading w \<or> isTick e)"
proof (cases e)
  case (Tick h)
  with step_Tick st obtain c due where tm: "timers w h = Some (Interval c due)"
    and w': "w' = commit p w (onTick p c (rearm p h c w))"
    by blast
  have ch: "index w' \<noteq> index w"
    using next_index_differs [OF L i] by (simp add: w')
  note t = tick_timers_changed [OF inv tm w' ch]
  have "noTimeout w'" unfolding noTimeout_def by (simp add: t)
  moreover have "isFading w'" by (simp add: w')
  ultimately show ?thesis using Tick by simp
next
  case (FadeClear h)
  with step_FadeClear st nt show ?thesis unfolding noTimeout_def by blast
next
  case (SampleSettles r outcome)
  with step_SampleSettles st obtain s t
    where w': "w' = onSample s t (w\<lparr>samples := (samples w)(r := None)\<rparr>)"
    by blast
  show ?thesis using nt SampleSettles unfolding noTimeout_def w' by simp
next
  case (Elapse d)
  with st have w': "w' = w\<lparr>now := now w + d\<rparr>" by (simp add: step_def)
  show ?thesis using nt Elapse unfolding noTimeout_def w' by simp
qed

lemma stuck_run:
  assumes L: "2 \<le> length (imageUrls p)"
  shows "timersInv w \<Longrightarrow> index w < length (imageUrls p) \<Longrightarrow> noTimeout w \<Longrightarrow>
    run p es w = Some w' \<Longrightarrow> noTimeout w' \<and> isFading w' = (isFading w \<or> 0 < ticks es)"
proof (induction es arbitrary: w)
  case Nil
  then show ?case by (simp add: ticks_def)
next
  case (Cons e es)
  from Cons.prems(4) obtain w1 where s: "step p e w = Some w1" and r: "run p es w1 = Some w'"
    by (auto split: option.splits)
  note a = stuck_step [OF Cons.prems(1) L Cons.prems(2) Cons.prems(3) s]
  have inv1: "timersInv w1" by (rule timersInv_step [OF Cons.prems(1) s])
  have pos: "0 < length (imageUrls p)" using L by linarith
  have i1: "index w1 < length (imageUrls p)"
    using step_index [OF s] Cons.prems(2) pos by (auto simp: max_def)
  from Cons.IH [OF inv1 i1 _ r] a
  have "noTimeout w' \<and> isFading w' = (isFading w1 \<or> 0 < ticks es)" by simp
  with a show ?case by (cases "isTick e") (auto simp: ticks_def)
qed

section \<open>The previous index\<close>

lemma step_previousIndex:
  assumes "step p e w = Some w'"
  shows "(previousIndex w' = None) = (previousIndex w = None \<and> \<not> isTick e)"
proof (cases e)
  case (Tick h)
  with step_Tick assms show ?thesis by fastforce
next
  case (FadeClear h)
  with step_FadeClear assms show ?thesis by fastforce
next
  case (SampleSettles r outcome)
  with step_SampleSettles assms show ?thesis by fastforce
next
  case (Elapse d)
  with step_Elapse assms show ?thesis by fastforce
qed

lemma run_previousIndex:
  "run p es w = Some w' \<Longrightarrow>
   (previousIndex w' = None) = (previousIndex w = None \<and> ticks es = 0)"
proof (induction es arbitrary: w)
  case Nil
  then show ?case by (simp add: ticks_def)
next
  case (Cons e es)
  from Cons.prems obtain w1 where s: "step p e w = Some w1" and r: "run p es w1 = Some w'"
    by (auto split: option.splits)
  show ?case
    using Cons.IH [OF r] step_previousIndex [OF s] by (auto simp: ticks_def)
qed

section \<open>Events between two ticks\<close>

lemma quiet_step:
  assumes "step p e w = Some w'" and "\<not> isTick e"
  shows "index w' = index w \<and> accentRun w' = accentRun w \<and> nextSample w' = nextSample w \<and>
    (\<forall>r s. samples w' r = Some s \<longrightarrow> samples w r = Some s)"
proof (cases e)
  case (Tick h)
  with assms show ?thesis by simp
next
  case (FadeClear h)
  with step_FadeClear assms show ?thesis by fastforce
next
  case (SampleSettles r outcome)
  with step_SampleSettles assms(1) obtain s t
    where w': "w' = onSample s t (w\<lparr>samples := (samples w)(r := None)\<rparr>)"
    by blast
  show ?thesis by (auto simp: w' split: if_splits)
next
  case (Elapse d)
  with step_Elapse assms show ?thesis by fastforce
qed

lemma ticks_Cons: "ticks (e # es) = (if isTick e then 1 else 0) + ticks es"
  by (simp add: ticks_def)

lemma quiet_run:
  "run p es w = Some w' \<Longrightarrow> ticks es = 0 \<Longrightarrow>
   index w' = index w \<and> accentRun w' = accentRun w \<and> nextSample w' = nextSample w \<and>
   (\<forall>r s. samples w' r = Some s \<longrightarrow> samples w r = Some s)"
proof (induction es arbitrary: w)
  case Nil
  then show ?case by simp
next
  case (Cons e es)
  from Cons.prems(1) obtain w1 where s: "step p e w = Some w1" and r: "run p es w1 = Some w'"
    by (auto split: option.splits)
  from Cons.prems(2) have q: "\<not> isTick e" and t: "ticks es = 0"
    by (auto simp: ticks_Cons split: if_splits)
  show ?case using Cons.IH [OF r t] quiet_step [OF s q] by auto
qed

lemma stale_step:
  assumes "step p e w = Some w'" and "\<not> isTick e" and "allStale w"
  shows "accentPrimaryRgb w' = accentPrimaryRgb w \<and> accentSecondaryRgb w' = accentSecondaryRgb w \<and>
    allStale w'"
proof (cases e)
  case (Tick h)
  with assms show ?thesis by simp
next
  case (FadeClear h)
  with step_FadeClear assms show ?thesis unfolding allStale_def by fastforce
next
  case (SampleSettles r outcome)
  with step_SampleSettles assms(1) obtain s t where s: "samples w r = Some s"
    and w': "w' = onSample s t (w\<lparr>samples := (samples w)(r := None)\<rparr>)"
    by blast
  have "cancelled s" using assms(3) s unfolding allStale_def by blast
  then show ?thesis
    using assms(3) unfolding allStale_def w' by (auto simp: onSample_def split: prod.splits if_splits)
next
  case (Elapse d)
  with step_Elapse assms show ?thesis unfolding allStale_def by fastforce
qed

lemma stale_run:
  "run p es w = Some w' \<Longrightarrow> ticks es = 0 \<Longrightarrow> allStale w \<Longrightarrow>
   accentPrimaryRgb w' = accentPrimaryRgb w \<and> accentSecondaryRgb w' = accentSecondaryRgb w"
proof (induction es arbitrary: w)
  case Nil
  then show ?case by simp
next
  case (Cons e es)
  from Cons.prems(1) obtain w1 where s: "step p e w = Some w1" and r: "run p es w1 = Some w'"
    by (auto split: option.splits)
  from Cons.prems(2) have q: "\<not> isTick e" and t: "ticks es = 0"
    by (auto simp: ticks_Cons split: if_splits)
  note a = stale_step [OF s q Cons.prems(3)]
  show ?case using Cons.IH [OF r t] a by simp
qed

lemma onSample_live:
  "\<not> cancelled s \<Longrightarrow>
   accentPrimaryRgb (onSample s (r, g, b) w) = toRgbTripletString (boost r) (boost g) (boost b) \<and>
   accentSecondaryRgb (onSample s (r, g, b) w) =
     deriveSecondaryFromPrimary (boost r) (boost g) (boost b)"
  by (simp add: onSample_def Let_def)

lemma onSample_stale: "cancelled s \<Longrightarrow> onSample s t w = w"
  by (simp add: onSample_def split: prod.splits)

section \<open>Rounding to a double\<close>

text \<open>
  The rounding used by every arithmetic operation: the exponent brackets the argument, the
  significand has 53 bits, and the result is at most half a unit in the last place away.
\<close>

lemma pow2_powi: "pow2 e = 2 powi e"
  by (simp add: pow2_def power_int_def inverse_eq_divide power_one_over)

lemma pow2_pos: "0 < pow2 e"
  by (simp add: pow2_powi)

lemma pow2_add: "pow2 (a + b) = pow2 a * pow2 b"
  by (simp add: pow2_powi power_int_add)

lemma pow2_nat: "0 \<le> e \<Longrightarrow> pow2 e = of_int (2 ^ nat e)"
  by (simp add: pow2_def)

lemma pow2_mono: "a \<le> b \<Longrightarrow> pow2 a \<le> pow2 b"
  by (simp add: pow2_powi power_int_increasing)

lemma ilog2_bounds:
  assumes "0 < x"
  shows "pow2 (ilog2 x) \<le> x \<and> x < pow2 (ilog2 x + 1)"
proof -
  obtain a b where q: "quotient_of x = (a, b)" by (cases "quotient_of x")
  have b: "0 < b" by (rule quotient_of_denom_pos [OF q])
  have x: "x = of_int a / of_int b" by (rule quotient_of_div [OF q])
  have a: "0 < a" using assms b unfolding x by (simp add: zero_less_divide_iff)
  let ?p = "bitlen a" and ?q = "bitlen b"
  have p1: "1 \<le> ?p" and q1: "1 \<le> ?q" using a b by (auto simp: bitlen_alt_def)
  from bitlen_bounds [OF a] have "(of_int (2 ^ nat (?p - 1)) :: rat) \<le> of_int a"
    and "(of_int a :: rat) < of_int (2 ^ nat ?p)"
    by (simp_all only: of_int_le_iff of_int_less_iff)
  then have al: "pow2 (?p - 1) \<le> of_int a" and au: "of_int a < pow2 ?p"
    using p1 by (simp_all add: pow2_nat)
  from bitlen_bounds [OF b] have "(of_int (2 ^ nat (?q - 1)) :: rat) \<le> of_int b"
    and "(of_int b :: rat) < of_int (2 ^ nat ?q)"
    by (simp_all only: of_int_le_iff of_int_less_iff)
  then have bl: "pow2 (?q - 1) \<le> of_int b" and bu: "of_int b < pow2 ?q"
    using q1 by (simp_all add: pow2_nat)
  have bpos: "(0::rat) < of_int b" using b by simp
  have lower: "pow2 (?p - ?q - 1) < x"
  proof -
    have "pow2 (?p - ?q - 1) * of_int b < pow2 (?p - ?q - 1) * pow2 ?q"
      using bu pow2_pos by simp
    also have "\<dots> = pow2 (?p - 1)" by (simp add: pow2_add [symmetric])
    also have "\<dots> \<le> of_int a" by (rule al)
    finally show ?thesis unfolding x using bpos by (simp add: pos_less_divide_eq)
  qed
  have upper: "x < pow2 (?p - ?q + 1)"
  proof -
    have "of_int a < pow2 ?p" by (rule au)
    also have "\<dots> = pow2 (?p - ?q + 1) * pow2 (?q - 1)" by (simp add: pow2_add [symmetric])
    also have "\<dots> \<le> pow2 (?p - ?q + 1) * of_int b"
      using bl pow2_pos by simp
    finally show ?thesis unfolding x using bpos by (simp add: pos_divide_less_eq)
  qed
  show ?thesis
  proof (cases "pow2 (?p - ?q) \<le> x")
    case True
    then have "ilog2 x = ?p - ?q" by (simp add: ilog2_def q Let_def)
    with True upper show ?thesis by simp
  next
    case False
    then have "ilog2 x = ?p - ?q - 1" by (simp add: ilog2_def q Let_def)
    with False lower show ?thesis by simp
  qed
qed

lemma roundEven_near: "\<bar>of_int (roundEven m) - m\<bar> \<le> 1 / 2"
proof -
  have "of_int \<lfloor>m\<rfloor> \<le> m" and "m < of_int \<lfloor>m\<rfloor> + 1" by linarith+
  then show ?thesis by (auto simp: roundEven_def Let_def)
qed

lemma roundEven_mono_int:
  assumes "of_int k \<le> m"
  shows "k \<le> roundEven m"
proof -
  have "k \<le> \<lfloor>m\<rfloor>" using assms by (simp add: le_floor_iff)
  then show ?thesis by (auto simp: roundEven_def Let_def)
qed

lemma roundEven_le_int:
  assumes "m \<le> of_int k"
  shows "roundEven m \<le> k"
proof (cases "m = of_int k")
  case True
  then show ?thesis by (simp add: roundEven_def Let_def)
next
  case False
  with assms have "m < of_int k" by simp
  then have "\<lfloor>m\<rfloor> < k" by (simp add: floor_less_iff)
  then show ?thesis by (auto simp: roundEven_def Let_def)
qed

text \<open>fl x is a 53-bit significand times a power of two, at most half a unit from x\<close>

lemma fl_nearest:
  assumes "x \<noteq> 0"
  shows "\<exists>n. fl x = sgn x * of_int n * pow2 (ilog2 \<bar>x\<bar> - 52) \<and> 2 ^ 52 \<le> n \<and> n \<le> 2 ^ 53 \<and>
    \<bar>fl x - x\<bar> \<le> pow2 (ilog2 \<bar>x\<bar> - 52) / 2"
proof -
  let ?e = "ilog2 \<bar>x\<bar> - 52"
  let ?P = "pow2 ?e"
  let ?m = "\<bar>x\<bar> / ?P"
  let ?n = "roundEven ?m"
  have pos: "0 < \<bar>x\<bar>" using assms by simp
  note bnd = ilog2_bounds [OF pos]
  have P: "0 < ?P" by (rule pow2_pos)
  have e1: "pow2 (ilog2 \<bar>x\<bar>) = pow2 52 * ?P"
    using pow2_add [of 52 ?e] by simp
  have e2: "pow2 (ilog2 \<bar>x\<bar> + 1) = pow2 53 * ?P"
    using pow2_add [of 53 ?e] by (simp add: add.commute)
  have p52: "pow2 52 = of_int (2 ^ 52)" and p53: "pow2 53 = of_int (2 ^ 53)"
    by (simp_all add: pow2_def)
  have lo: "of_int (2 ^ 52) \<le> ?m"
    using bnd P unfolding e1 p52 by (simp add: pos_le_divide_eq)
  have hi: "?m \<le> of_int (2 ^ 53)"
    using bnd P unfolding e2 p53 by (simp add: pos_divide_le_eq)
  have n1: "2 ^ 52 \<le> ?n" by (rule roundEven_mono_int [OF lo])
  have n2: "?n \<le> 2 ^ 53" by (rule roundEven_le_int [OF hi])
  have f: "fl x = sgn x * of_int ?n * ?P"
    using assms by (simp add: fl_def Let_def)
  have "fl x - x = sgn x * of_int ?n * ?P - sgn x * \<bar>x\<bar>"
    unfolding f by (simp add: sgn_mult_abs)
  also have "\<dots> = sgn x * (of_int ?n * ?P - \<bar>x\<bar>)"
    by (simp add: algebra_simps)
  finally have "\<bar>fl x - x\<bar> = \<bar>sgn x\<bar> * \<bar>of_int ?n * ?P - \<bar>x\<bar>\<bar>"
    by (simp only: abs_mult)
  also have "\<dots> = \<bar>of_int ?n * ?P - \<bar>x\<bar>\<bar>"
    using assms by (simp add: abs_sgn_eq)
  also have "\<dots> = \<bar>(of_int ?n - ?m) * ?P\<bar>"
    using P by (simp add: left_diff_distrib)
  also have "\<dots> = \<bar>of_int ?n - ?m\<bar> * ?P"
    using P by (simp only: abs_mult abs_of_pos)
  also have "\<dots> \<le> (1 / 2) * ?P"
    using roundEven_near [of ?m] P by (intro mult_right_mono) simp_all
  finally have err: "\<bar>fl x - x\<bar> \<le> ?P / 2" by simp
  from f n1 n2 err show ?thesis by blast
qed

section \<open>Colours\<close>

text \<open>
  The doubles of the literals, two ties that go to the even significand, and the mean, the
  boost and the secondary channel of seven pixels whose reds add up to 1032.
\<close>

lemma fl_examples:
  "fl (1 / 10) = 3602879701896397 / 36028797018963968"
  "fl (21 / 20) = 4728779608739021 / 4503599627370496"
  "fl (5 / 4) = 5 / 4"
  "fl 255 = 255"
  "fl 9007199254740993 = 9007199254740992"
  "fl 9007199254740995 = 9007199254740996"
  "numToString (Math_round (lighten (boost (jsDivNat (Num 1032) 7)))) = ''213''"
  by code_simp+

lemma numToString_round: "numToString (Math_round (Num a)) = showInt (round a)"
  by (simp add: round_def)

lemma lighten_Num: "lighten (Num c) = Num (max 0 (min 255 (fl (fl (c * (5 / 4)) + 20))))"
  by (simp add: lighten_def clamp_def)

lemma secondary_channel:
  "numToString (Math_round (lighten (Num c))) = showInt (spec_lighten_double c)"
  unfolding lighten_Num numToString_round spec_lighten_double_def by simp

text \<open>
  The alpha test \<open>data[i + 3] / 255 < 0.1\<close> has the same outcome in doubles as over the exact
  numbers: it holds for the bytes 0 to 25, and the quotient of each is a double below the
  double of \<open>0.1\<close>.
\<close>

lemma alpha_bytes: "list_all (\<lambda>n. fl (of_nat n / 255) < fl (1 / 10)) [0..<26]"
  by code_simp

lemma alpha_low:
  assumes "of_nat n / 255 < (1 / 10 :: rat)"
  shows "fl (of_nat n / 255) < fl (1 / 10)"
proof -
  from assms have "(of_nat n :: rat) < of_nat 26" by simp
  then have "n < 26" by (simp only: of_nat_less_iff)
  then have "n \<in> set [0..<26]" by simp
  with alpha_bytes show ?thesis unfolding list_all_iff by blast
qed



lemma averageLoop_skips:
  "(\<forall>j. j < length data \<and> 4 dvd j \<longrightarrow>
      j + 3 < length data \<and> of_nat (unat (data ! (j + 3))) / 255 < (1 / 10 :: rat)) \<Longrightarrow>
   4 dvd i \<Longrightarrow> averageLoop data i acc = acc"
proof (induction data i acc rule: averageLoop.induct)
  case (1 data i r g b count)
  show ?case
  proof (cases "i < length data")
    case True
    with "1.prems" have in_range: "i + 3 < length data"
      and low: "of_nat (unat (data ! (i + 3))) / 255 < (1 / 10 :: rat)"
      by blast+
    have less: "jsLess (jsDivNat (byteAt data (i + 3)) 255) (Num (fl (1 / 10)))"
      using in_range alpha_low [OF low] by (simp add: byteAt_def)
    have next4: "4 dvd i + 4" using "1.prems"(2) by simp
    have "averageLoop data i (r, g, b, count) = averageLoop data (i + 4) (r, g, b, count)"
      using True less by (subst averageLoop.simps) simp
    also have "\<dots> = (r, g, b, count)"
      using "1.IH"(1) [OF True refl less "1.prems"(1) next4] .
    finally show ?thesis .
  next
    case False
    then show ?thesis by (subst averageLoop.simps) simp
  qed
qed

section \<open>Running concrete traces\<close>

lemma run_step: "step p e w = Some w1 \<Longrightarrow> run p (e # es) w = run p es w1"
  by simp

lemma samples_mount:
  "samples (mount p) =
     (case currentUrl p initial of
        None \<Rightarrow> Map.empty
      | Some u \<Rightarrow> if u = [] then Map.empty else [0 \<mapsto> \<lparr>url = u, cancelled = False\<rparr>])"
  by (simp add: mount_def accentEffect_fields2 initial_def split: option.splits)

lemma accentRun_mount:
  "accentRun (mount p) =
     (case currentUrl p initial of None \<Rightarrow> None | Some u \<Rightarrow> if u = [] then None else Some 0)"
  by (simp add: mount_def accentEffect_fields2 initial_def split: option.splits)

lemma nextSample_mount:
  "nextSample (mount p) =
     (case currentUrl p initial of None \<Rightarrow> 0 | Some u \<Rightarrow> if u = [] then 0 else 1)"
  by (simp add: mount_def accentEffect_fields2 initial_def split: option.splits)

lemma redPixel_colour: "computeAverageColor u redPixel = Inr (Num 255, Num 0, Num 0)"
  by code_simp

lemma previousUrl_None:
  "(previousUrl p w = None) = (previousIndex w = None \<or> imageUrls p = [])"
  by (simp add: previousUrl_def split: option.splits)

section \<open>Ticks can always happen\<close>

lemma run_append:
  "run p (es @ es') w = (case run p es w of None \<Rightarrow> None | Some w' \<Rightarrow> run p es' w')"
  by (induction es arbitrary: w) (auto split: option.splits)

lemma ticks_append: "ticks (es @ es') = ticks es + ticks es'"
  by (simp add: ticks_def)

lemma tick_possible:
  assumes "timersInv w"
  shows "\<exists>h d w'. run p [Elapse d, Tick h] w = Some w'"
proof -
  from assms obtain h due where h: "timers w h = Some (Interval (index w) due)"
    unfolding timersInv_def by blast
  have "run p [Elapse due, Tick h] w \<noteq> None"
    using h by (simp add: step_def)
  then show ?thesis by blast
qed

lemma ticks_reachable: "\<exists>es w. ticks es = N \<and> run p es (mount p) = Some w"
proof (induction N)
  case 0
  have "ticks [] = 0 \<and> run p [] (mount p) = Some (mount p)" by (simp add: ticks_def)
  then show ?case by blast
next
  case (Suc N)
  then obtain es w where t: "ticks es = N" and r: "run p es (mount p) = Some w" by blast
  from tick_possible [OF timersInv_reachable [OF r]] obtain h d w'
    where r': "run p [Elapse d, Tick h] w = Some w'" by blast
  have "ticks (es @ [Elapse d, Tick h]) = Suc N"
    using t by (simp add: ticks_append) (simp add: ticks_def)
  moreover have "run p (es @ [Elapse d, Tick h]) (mount p) = Some w'"
    unfolding run_append r using r' by simp
  ultimately show ?case by blast
qed

section \<open>Publishing a sample\<close>

lemma stale_sample_dropped:
  assumes inv: "samplesInv p w" and s: "samples w k = Some s"
    and other: "currentUrl p w \<noteq> Some (url s)"
    and st: "step p (SampleSettles k outcome) w = Some w'"
  shows "accentPrimaryRgb w' = accentPrimaryRgb w \<and> accentSecondaryRgb w' = accentSecondaryRgb w"
proof -
  have c: "cancelled s"
    using samplesForD2 [OF inv [unfolded samplesInv_def] s] other by blast
  from step_SampleSettles [OF st] s obtain t
    where "w' = onSample s t (w\<lparr>samples := (samples w)(k := None)\<rparr>)"
    by auto
  then show ?thesis by (simp add: onSample_stale [OF c])
qed

lemma step_publishes:
  assumes "step p e w = Some w'"
    and "accentPrimaryRgb w' \<noteq> accentPrimaryRgb w \<or> accentSecondaryRgb w' \<noteq> accentSecondaryRgb w"
  shows "\<exists>k outcome s r g b. e = SampleSettles k outcome \<and> samples w k = Some s \<and> \<not> cancelled s \<and>
    computeAverageColor (url s) outcome = Inr (r, g, b) \<and>
    accentPrimaryRgb w' = toRgbTripletString (boost r) (boost g) (boost b) \<and>
    accentSecondaryRgb w' = deriveSecondaryFromPrimary (boost r) (boost g) (boost b)"
proof (cases e)
  case (Tick h)
  with step_Tick assms show ?thesis by fastforce
next
  case (FadeClear h)
  with step_FadeClear assms show ?thesis by fastforce
next
  case (SampleSettles k outcome)
  with step_SampleSettles assms(1) obtain s t where s: "samples w k = Some s"
    and t: "computeAverageColor (url s) outcome = Inr t"
    and w': "w' = onSample s t (w\<lparr>samples := (samples w)(k := None)\<rparr>)"
    by blast
  obtain r g b where rgb: "t = (r, g, b)" by (cases t) auto
  have live: "\<not> cancelled s"
    using assms(2) by (auto simp: w' onSample_stale)
  from onSample_live [OF live, of r g b "w\<lparr>samples := (samples w)(k := None)\<rparr>"]
    SampleSettles s t live rgb w'
  show ?thesis by auto
next
  case (Elapse d)
  with step_Elapse assms show ?thesis by fastforce
qed

lemma step_settles_live:
  assumes "samples w k = Some s" and "\<not> cancelled s"
    and "computeAverageColor (url s) outcome = Inr (r, g, b)"
  shows "\<exists>w'. step p (SampleSettles k outcome) w = Some w' \<and>
    accentPrimaryRgb w' = toRgbTripletString (boost r) (boost g) (boost b) \<and>
    accentSecondaryRgb w' = deriveSecondaryFromPrimary (boost r) (boost g) (boost b)"
proof -
  let ?w1 = "w\<lparr>samples := (samples w)(k := None)\<rparr>"
  have "step p (SampleSettles k outcome) w = Some (onSample s (r, g, b) ?w1)"
    using assms(1,3) by (simp add: step_def Let_def commit_same)
  with onSample_live [OF assms(2), of r g b ?w1] show ?thesis by simp
qed

lemma accentPair_step:
  assumes "accentPair w" and "step p e w = Some w'"
  shows "accentPair w'"
proof (cases "accentPrimaryRgb w' \<noteq> accentPrimaryRgb w \<or> accentSecondaryRgb w' \<noteq> accentSecondaryRgb w")
  case True
  from step_publishes [OF assms(2) True] show ?thesis unfolding accentPair_def by blast
next
  case False
  with assms(1) show ?thesis unfolding accentPair_def by simp
qed

lemma accentPair_run: "accentPair w \<Longrightarrow> run p es w = Some w' \<Longrightarrow> accentPair w'"
  by (induction es arbitrary: w) (auto split: option.splits dest: accentPair_step)

lemma accentPair_reachable: "run p es (mount p) = Some w \<Longrightarrow> accentPair w"
  by (rule accentPair_run [of "mount p"]) (simp_all add: accentPair_def)

section \<open>The fade-clear timeout is never early\<close>

lemma fadePending_step:
  assumes "fadePending T w" and "step p e w = Some w'" and "\<not> isTick e"
  shows "fadePending T w'"
proof (cases e)
  case (Tick h)
  with assms show ?thesis by simp
next
  case (FadeClear h)
  with step_FadeClear assms(2) obtain due where tm: "timers w h = Some (Timeout due)"
    and due: "due \<le> now w" and w': "w' = (clearTimer h w)\<lparr>isFading := False\<rparr>"
    by blast
  have "T \<le> now w" using assms(1) tm due unfolding fadePending_def by fastforce
  then show ?thesis unfolding fadePending_def w' by simp
next
  case (SampleSettles k outcome)
  with step_SampleSettles assms(2) obtain s t
    where w': "w' = onSample s t (w\<lparr>samples := (samples w)(k := None)\<rparr>)"
    by blast
  show ?thesis using assms(1) unfolding fadePending_def w' by simp
next
  case (Elapse d)
  with step_Elapse assms(2) have w': "w' = w\<lparr>now := now w + d\<rparr>" by blast
  show ?thesis using assms(1) unfolding fadePending_def w' by auto
qed

lemma fadePending_run:
  "fadePending T w \<Longrightarrow> run p es w = Some w' \<Longrightarrow> ticks es = 0 \<Longrightarrow> fadePending T w'"
proof (induction es arbitrary: w)
  case Nil
  then show ?case by simp
next
  case (Cons e es)
  from Cons.prems(2) obtain w1 where s: "step p e w = Some w1" and r: "run p es w1 = Some w'"
    by (auto split: option.splits)
  from Cons.prems(3) have q: "\<not> isTick e" and t: "ticks es = 0"
    by (auto simp: ticks_Cons split: if_splits)
  show ?case by (rule Cons.IH [OF fadePending_step [OF Cons.prems(1) s q] r t])
qed

lemma fade_clear_not_early:
  assumes reach: "run p es0 (mount p) = Some w0"
    and tick: "step p (Tick h) w0 = Some w1"
    and rest: "run p es w1 = Some w2" and quiet: "ticks es = 0"
    and clear: "\<not> isFading w2"
  shows "isFading w1 \<and> now w1 + crossfadeMsOf p \<le> now w2"
proof -
  have inv: "timersInv w0" by (rule timersInv_reachable [OF reach])
  from step_Tick [OF tick] obtain c due where tm: "timers w0 h = Some (Interval c due)"
    and w1: "w1 = commit p w0 (onTick p c (rearm p h c w0))"
    by blast
  have f: "isFading w1" and n: "now w1 = now w0" by (simp_all add: w1)
  have "\<forall>k d. timers w1 k = Some (Timeout d) \<longrightarrow> now w0 + crossfadeMsOf p \<le> d"
  proof (cases "index w1 = index w0")
    case True
    show ?thesis by (simp add: tick_timers_same(3) [OF inv tm w1 True])
  next
    case False
    show ?thesis by (simp add: tick_timers_changed(3) [OF inv tm w1 False])
  qed
  with f have "fadePending (now w0 + crossfadeMsOf p) w1" by (simp add: fadePending_def)
  from fadePending_run [OF this rest quiet] clear
  have "now w0 + crossfadeMsOf p \<le> now w2" by (simp add: fadePending_def)
  with f n show ?thesis by simp
qed

section \<open>The claims\<close>

text \<open>
  C1 (rotation correctness). For an image sequence of length \<open>L \<ge> 1\<close>, after any events of which
  \<open>N\<close> are ticks of the interval timer, the current index is \<open>N mod L\<close>: the index starts at
  0 and only a tick changes it, to \<open>(i + 1) mod max(1, L)\<close>. Every number \<open>N\<close> of ticks can
  happen.
\<close>

theorem rotation_correctness:
  assumes "1 \<le> length (imageUrls p)"
  shows "(\<forall>es w. run p es (mount p) = Some w \<longrightarrow> index w = ticks es mod length (imageUrls p)) \<and>
    (\<forall>N. \<exists>es w. ticks es = N \<and> run p es (mount p) = Some w)"
proof -
  have m: "max 1 (length (imageUrls p)) = length (imageUrls p)"
    using assms by simp
  have "index w = ticks es mod length (imageUrls p)" if r: "run p es (mount p) = Some w" for es w
  proof -
    have "index w = (index (mount p) + ticks es) mod max 1 (length (imageUrls p))"
      by (rule run_index [OF r]) simp
    then show ?thesis unfolding m by simp
  qed
  with ticks_reachable show ?thesis by blast
qed

theorem rotation_correctness_witness:
  "map_option index
     (run threeImages
        [Elapse 20000, Tick 1, Elapse 20000, Tick 3, Elapse 20000, Tick 5, Elapse 20000, Tick 7]
        (mount threeImages)) = Some 1"
proof -
  let ?es = "[Elapse 20000, Tick 1, Elapse 20000, Tick 3, Elapse 20000, Tick 5, Elapse 20000, Tick 7]"
  have "run threeImages ?es (mount threeImages) \<noteq> None"
    by (simp add: exec_simps threeImages_def)
  then obtain w where r: "run threeImages ?es (mount threeImages) = Some w" by blast
  have l: "1 \<le> length (imageUrls threeImages)" by (simp add: threeImages_def)
  have "index w = ticks ?es mod length (imageUrls threeImages)"
    using rotation_correctness [OF l] r by blast
  then have "index w = 1" by (simp add: ticks_def threeImages_def)
  with r show ?thesis by simp
qed

text \<open>
  C2 (stale-result rejection). The sample for image A is in flight and live when a tick makes
  B (different from A) the active image and starts B's sample. B's sample settles, then A's
  does, with no tick in between (any other events may interleave). Then the published accent
  strings are the ones computed from B's colour: A's late result is dropped. In general, once
  B's sample has settled, a sample started for an image other than the active one changes
  neither accent string when it settles.
\<close>

theorem stale_result_rejected:
  assumes reach: "run p es0 (mount p) = Some w0"
    and pendA: "samples w0 ra = Some sa" and liveA: "\<not> cancelled sa"
    and tick: "step p (Tick h) w0 = Some w1"
    and curB: "currentUrl p w1 = Some B" and AB: "B \<noteq> url sa"
    and runB: "accentRun w1 = Some rb"
    and mid: "run p es1 w1 = Some w1'" and q1: "ticks es1 = 0"
    and setB: "step p (SampleSettles rb oB) w1' = Some w2"
    and aft: "run p es2 w2 = Some w3" and q2: "ticks es2 = 0"
    and setA: "SampleSettles ra oA \<in> set es2"
    and resB: "computeAverageColor B oB = Inr (r, g, b)"
  shows "accentPrimaryRgb w3 = toRgbTripletString (boost r) (boost g) (boost b) \<and>
    accentSecondaryRgb w3 = deriveSecondaryFromPrimary (boost r) (boost g) (boost b) \<and>
    (\<forall>k outcome s w'. samples w2 k = Some s \<longrightarrow> currentUrl p w2 \<noteq> Some (url s) \<longrightarrow>
       step p (SampleSettles k outcome) w2 = Some w' \<longrightarrow>
       accentPrimaryRgb w' = accentPrimaryRgb w2 \<and> accentSecondaryRgb w' = accentSecondaryRgb w2)"
proof -
  have inv0: "samplesInv p w0" by (rule samplesInv_reachable [OF reach])
  have curA: "currentUrl p w0 = Some (url sa)"
    using samplesForD2 [OF inv0 [unfolded samplesInv_def] pendA liveA] by simp
  from step_Tick [OF tick] obtain c due
    where w1: "w1 = commit p w0 (onTick p c (rearm p h c w0))"
    by blast
  let ?t = "onTick p c (rearm p h c w0)"
  have curT: "currentUrl p ?t = Some B" using curB by (simp add: w1)
  have ch: "currentUrl p ?t \<noteq> currentUrl p w0" using curT curA AB by simp
  have rb: "rb = nextSample w0" and nonempty: "B \<noteq> []"
    using runB ch curT by (simp_all add: w1 commit_accent accentEffect_fields2 split: if_splits)
  have sB: "samples w1 rb = Some \<lparr>url = B, cancelled = False\<rparr>"
    using ch curT nonempty by (simp add: w1 commit_accent accentEffect_fields2 rb)
  have inv1': "samplesInv p w1'"
    by (rule samplesInv_run [OF samplesInv_step [OF inv0 tick] mid])
  note qm = quiet_run [OF mid q1]
  from step_SampleSettles [OF setB] obtain s t where s: "samples w1' rb = Some s"
    and t: "computeAverageColor (url s) oB = Inr t"
    and w2: "w2 = onSample s t (w1'\<lparr>samples := (samples w1')(rb := None)\<rparr>)"
    by blast
  have s_eq: "s = \<lparr>url = B, cancelled = False\<rparr>" using qm s sB by auto
  have t_eq: "t = (r, g, b)" using t resB by (simp add: s_eq)
  have acc2: "accentPrimaryRgb w2 = toRgbTripletString (boost r) (boost g) (boost b) \<and>
    accentSecondaryRgb w2 = deriveSecondaryFromPrimary (boost r) (boost g) (boost b)"
    unfolding w2 t_eq by (rule onSample_live) (simp add: s_eq)
  have stale2: "allStale w2"
    unfolding allStale_def
  proof (intro allI impI)
    fix r' s' assume a: "samples w2 r' = Some s'"
    then have ne: "r' \<noteq> rb" and b: "samples w1' r' = Some s'"
      by (auto simp: w2 split: if_splits)
    show "cancelled s'"
    proof (rule ccontr)
      assume "\<not> cancelled s'"
      from samplesForD2 [OF inv1' [unfolded samplesInv_def] b this]
      have "accentRun w1' = Some r'" by simp
      with qm runB ne show False by simp
    qed
  qed
  have inv2: "samplesInv p w2" by (rule samplesInv_step [OF inv1' setB])
  have drop: "accentPrimaryRgb w' = accentPrimaryRgb w2 \<and> accentSecondaryRgb w' = accentSecondaryRgb w2"
    if "samples w2 k = Some s" and "currentUrl p w2 \<noteq> Some (url s)"
      and "step p (SampleSettles k outcome) w2 = Some w'" for k outcome s w'
    by (rule stale_sample_dropped [OF inv2 that])
  have acc3: "accentPrimaryRgb w3 = toRgbTripletString (boost r) (boost g) (boost b) \<and>
    accentSecondaryRgb w3 = deriveSecondaryFromPrimary (boost r) (boost g) (boost b)"
    using stale_run [OF aft q2 stale2] acc2 by simp
  show ?thesis
  proof (intro conjI allI impI)
    show "accentPrimaryRgb w3 = toRgbTripletString (boost r) (boost g) (boost b)"
      and "accentSecondaryRgb w3 = deriveSecondaryFromPrimary (boost r) (boost g) (boost b)"
      using acc3 by simp_all
  next
    fix k outcome s w'
    assume a: "samples w2 k = Some s" "currentUrl p w2 \<noteq> Some (url s)"
      "step p (SampleSettles k outcome) w2 = Some w'"
    show "accentPrimaryRgb w' = accentPrimaryRgb w2" and "accentSecondaryRgb w' = accentSecondaryRgb w2"
      using drop [OF a] by simp_all
  qed
qed

theorem stale_result_rejected_witness:
  "map_option accentPrimaryRgb
     (run twoImages [Elapse 20000, Tick 1, SampleSettles 1 redPixel, SampleSettles 0 LoadError]
        (mount twoImages)) = Some ''255 0 0'' \<and>
   map_option accentSecondaryRgb
     (run twoImages [Elapse 20000, Tick 1, SampleSettles 1 redPixel, SampleSettles 0 LoadError]
        (mount twoImages)) = Some ''255 20 20''"
proof -
  define w0 where "w0 = (mount twoImages)\<lparr>now := 20000\<rparr>"
  define w1 where "w1 = commit twoImages w0 (onTick twoImages 0 (rearm twoImages 1 0 w0))"
  define w2 where "w2 = onSample \<lparr>url = ''b'', cancelled = False\<rparr> (Num 255, Num 0, Num 0)
    (w1\<lparr>samples := (samples w1)(1 := None)\<rparr>)"
  define w3 where "w3 = onSample \<lparr>url = ''a'', cancelled = True\<rparr> fallback
    (w2\<lparr>samples := (samples w2)(0 := None)\<rparr>)"
  have cur0: "currentUrl twoImages w0 = Some ''a''"
    by (simp add: w0_def currentUrl_def twoImages_def)
  have cur1: "currentUrl twoImages w1 = Some ''b''"
    by (simp add: w1_def w0_def currentUrl_def twoImages_def)
  have e0: "step twoImages (Elapse 20000) (mount twoImages) = Some w0"
    by (simp add: step_def w0_def)
  then have r0: "run twoImages [Elapse 20000] (mount twoImages) = Some w0"
    by simp
  have pendA: "samples w0 0 = Some \<lparr>url = ''a'', cancelled = False\<rparr>"
    by (simp add: w0_def samples_mount currentUrl_def initial_def twoImages_def)
  have tick: "step twoImages (Tick 1) w0 = Some w1"
    by (simp add: exec_simps w0_def w1_def twoImages_def)
  have s1: "samples w1 = [0 \<mapsto> \<lparr>url = ''a'', cancelled = True\<rparr>,
      1 \<mapsto> \<lparr>url = ''b'', cancelled = False\<rparr>]"
    unfolding w1_def
    by (simp add: commit_accent accentEffect_fields2 samples_accentCleanup cur0
          cur1 [unfolded w1_def, simplified])
       (simp add: w0_def samples_mount accentRun_mount nextSample_mount currentUrl_def
          initial_def twoImages_def)
  have runB: "accentRun w1 = Some 1"
    unfolding w1_def
    by (simp add: commit_accent accentEffect_fields2 cur0 cur1 [unfolded w1_def, simplified])
       (simp add: w0_def nextSample_mount currentUrl_def initial_def twoImages_def)
  have setB: "step twoImages (SampleSettles 1 redPixel) w1 = Some w2"
    by (simp add: step_def s1 redPixel_colour w2_def commit_same)
  have s2: "samples w2 = [0 \<mapsto> \<lparr>url = ''a'', cancelled = True\<rparr>]"
    by (simp add: w2_def s1 fun_upd_twist)
  have setA: "step twoImages (SampleSettles 0 LoadError) w2 = Some w3"
    by (simp add: step_def s2 computeAverageColor_def w3_def commit_same)
  then have aft: "run twoImages [SampleSettles 0 LoadError] w2 = Some w3" by simp
  have whole: "run twoImages [Elapse 20000, Tick 1, SampleSettles 1 redPixel, SampleSettles 0 LoadError]
      (mount twoImages) = Some w3"
    by (simp only: run_step [OF e0] run_step [OF tick] run_step [OF setB] run_step [OF setA]
          run.simps(1))
  have strs: "toRgbTripletString (boost (Num 255)) (boost (Num 0)) (boost (Num 0)) = ''255 0 0''"
    "deriveSecondaryFromPrimary (boost (Num 255)) (boost (Num 0)) (boost (Num 0)) = ''255 20 20''"
    by code_simp+
  have liveA: "\<not> cancelled \<lparr>url = ''a'', cancelled = False\<rparr>" by simp
  have AB: "''b'' \<noteq> url \<lparr>url = ''a'', cancelled = False\<rparr>" by simp
  have mid: "run twoImages [] w1 = Some w1" by simp
  have q1: "ticks [] = 0" and q2: "ticks [SampleSettles 0 LoadError] = 0"
    by (simp_all add: ticks_def)
  have mem: "SampleSettles 0 LoadError \<in> set [SampleSettles 0 LoadError]" by simp
  note stale_result_rejected [OF r0 pendA liveA tick cur1 AB runB mid q1 setB aft q2 mem
      redPixel_colour]
  then have "accentPrimaryRgb w3 = toRgbTripletString (boost (Num 255)) (boost (Num 0)) (boost (Num 0))"
    and "accentSecondaryRgb w3 =
      deriveSecondaryFromPrimary (boost (Num 255)) (boost (Num 0)) (boost (Num 0))"
    by blast+
  with whole strs show ?thesis by simp
qed

text \<open>
  C3 (the extractor never fails observably). The promise of \<open>computeAverageColor\<close> never
  rejects: for every outcome of loading and rasterising it resolves with a triplet. A load
  failure, a missing 2D context, and an exception thrown while sampling each resolve with the
  fallback (85, 37, 131). A pending sample can therefore always be delivered to the hook.
\<close>

theorem extractor_never_fails:
  "(\<exists>t. computeAverageColor u outcome = Inr t) \<and>
   computeAverageColor u LoadError = Inr (Num 85, Num 37, Num 131) \<and>
   (\<not> getContext cv \<longrightarrow> computeAverageColor u (Loaded cv) = Inr (Num 85, Num 37, Num 131)) \<and>
   (sampleCanvas cv' = Inl e \<longrightarrow> computeAverageColor u (Loaded cv') = Inr (Num 85, Num 37, Num 131)) \<and>
   (samples w r = Some s \<longrightarrow> step p (SampleSettles r outcome) w \<noteq> None)"
proof -
  have a: "\<exists>t. computeAverageColor u outcome = Inr t" by (rule computeAverageColor_Inr)
  have b: "computeAverageColor u LoadError = Inr (Num 85, Num 37, Num 131)"
    by (simp add: computeAverageColor_def fallback_def)
  have c: "\<not> getContext cv \<Longrightarrow> computeAverageColor u (Loaded cv) = Inr (Num 85, Num 37, Num 131)"
    by (simp add: computeAverageColor_def onload_def sampleCanvas_def fallback_def)
  have d: "sampleCanvas cv' = Inl e \<Longrightarrow>
      computeAverageColor u (Loaded cv') = Inr (Num 85, Num 37, Num 131)"
    by (simp add: computeAverageColor_def onload_def fallback_def)
  have f: "samples w r = Some s \<Longrightarrow> step p (SampleSettles r outcome) w \<noteq> None"
    by (simp add: step_def Let_def computeAverageColor_value)
  from a b c d f show ?thesis by blast
qed

theorem extractor_never_fails_witness:
  "computeAverageColor ''a'' (Loaded noContext) = Inr (Num 85, Num 37, Num 131) \<and>
   sampleCanvas throwingCanvas = Inl DOMException \<and>
   computeAverageColor ''a'' (Loaded throwingCanvas) = Inr (Num 85, Num 37, Num 131) \<and>
   samples (mount oneImage) 0 = Some \<lparr>url = ''a'', cancelled = False\<rparr> \<and>
   step oneImage (SampleSettles 0 (Loaded throwingCanvas)) (mount oneImage) \<noteq> None"
proof -
  have a: "\<not> getContext noContext" by (simp add: noContext_def)
  have b: "sampleCanvas throwingCanvas = Inl DOMException"
    by (simp add: sampleCanvas_def throwingCanvas_def)
  have c: "samples (mount oneImage) 0 = Some \<lparr>url = ''a'', cancelled = False\<rparr>"
    by (simp add: samples_mount currentUrl_def initial_def oneImage_def)
  from a b c
    extractor_never_fails [of "''a''" "Loaded throwingCanvas" noContext throwingCanvas DOMException
      "mount oneImage" 0 "\<lparr>url = ''a'', cancelled = False\<rparr>" oneImage]
  show ?thesis by simp
qed

text \<open>
  C4 (fade-flag timing), what the code does. With two or more images every tick changes
  \<open>index\<close>, so the re-render runs the cleanup of the cycle effect, and that cleanup cancels
  the fade-clear timeout the tick has just scheduled. From the first tick on \<open>isFading\<close> is
  true in every reachable state, however much time elapses, and no fade-clear timeout can
  fire.
\<close>

theorem fade_flag_never_cleared:
  assumes "2 \<le> length (imageUrls p)" and "run p es (mount p) = Some w"
  shows "isFading w = (0 < ticks es) \<and> (\<forall>h. step p (FadeClear h) w = None)"
proof -
  have nt0: "noTimeout (mount p)" by (simp add: noTimeout_def timers_mount)
  have i0: "index (mount p) < length (imageUrls p)"
    using assms(1) by (cases "imageUrls p") simp_all
  from stuck_run [OF assms(1) timersInv_mount i0 nt0 assms(2)]
  have nt: "noTimeout w" and f: "isFading w = (0 < ticks es)" by simp_all
  have "step p (FadeClear h) w = None" for h
    using nt by (auto simp: step_def noTimeout_def split: option.splits timer.splits)
  with f show ?thesis by simp
qed

theorem fade_flag_never_cleared_witness:
  "map_option isFading
     (run twoImages [Elapse 20000, Tick 1, Elapse 1000000] (mount twoImages)) = Some True \<and>
   run twoImages [Elapse 20000, Tick 1, Elapse 1000000, FadeClear 2] (mount twoImages) = None"
proof -
  let ?es = "[Elapse 20000, Tick 1, Elapse 1000000]"
  have "run twoImages ?es (mount twoImages) \<noteq> None"
    by (simp add: exec_simps twoImages_def)
  then obtain w where r: "run twoImages ?es (mount twoImages) = Some w" by blast
  have l: "2 \<le> length (imageUrls twoImages)" by (simp add: twoImages_def)
  have t: "0 < ticks ?es" by (simp add: ticks_def)
  from fade_flag_never_cleared [OF l r] t
  have f: "isFading w" and n: "step twoImages (FadeClear 2) w = None" by simp_all
  have app: "run p (es @ [e]) w0 = (case run p es w0 of None \<Rightarrow> None | Some w' \<Rightarrow> step p e w')"
    for p es e w0
    by (induction es arbitrary: w0) (auto split: option.splits)
  have "run twoImages (?es @ [FadeClear 2]) (mount twoImages) = None"
    unfolding app r using n by simp
  with r f show ?thesis by simp
qed

text \<open>
  C5, as stated, fails. From mount until the first live sample settles, and for ever with an
  empty sequence, the hook returns the default pair \<open>85 37 131\<close> and \<open>253 185 39\<close>, while the
  law makes \<open>126 66 184\<close> of (85, 37, 131). And read over the exact numbers the law differs
  from the double arithmetic of the code: for the boosted mean of an image of red 152 the code
  publishes the secondary channel 220, the exact formula gives 219.
\<close>

theorem default_pair_not_derived:
  "useBackgroundCycle oneImage (mount oneImage)
     = (Some ''a'', None, False, ''85 37 131'', ''253 185 39'') \<and>
   map_option (useBackgroundCycle noImages) (run noImages [Elapse 20000, Tick 1] (mount noImages))
     = Some (None, None, True, ''85 37 131'', ''253 185 39'') \<and>
   deriveSecondaryFromPrimary (Num 85) (Num 37) (Num 131) = ''126 66 184'' \<and>
   boost (Num 152) = Num (5615425785377587 / 35184372088832) \<and>
   deriveSecondaryFromPrimary (Num (5615425785377587 / 35184372088832)) (Num 0) (Num 0)
     = ''220 20 20'' \<and>
   spec_lighten (5615425785377587 / 35184372088832) = 219"
proof -
  have a: "useBackgroundCycle oneImage (mount oneImage)
     = (Some ''a'', None, False, ''85 37 131'', ''253 185 39'')"
    by (simp add: useBackgroundCycle_def currentUrl_def previousUrl_def oneImage_def)
  have b: "map_option (useBackgroundCycle noImages)
      (run noImages [Elapse 20000, Tick 1] (mount noImages))
     = Some (None, None, True, ''85 37 131'', ''253 185 39'')"
    by (simp add: exec_simps noImages_def useBackgroundCycle_def currentUrl_def previousUrl_def)
  have c: "deriveSecondaryFromPrimary (Num 85) (Num 37) (Num 131) = ''126 66 184''"
    by code_simp
  have d: "boost (Num 152) = Num (5615425785377587 / 35184372088832)"
    by code_simp
  have e: "deriveSecondaryFromPrimary (Num (5615425785377587 / 35184372088832)) (Num 0) (Num 0)
     = ''220 20 20''"
    by code_simp
  have f: "spec_lighten (5615425785377587 / 35184372088832) = 219"
    by code_simp
  from a b c d e f show ?thesis by simp
qed

text \<open>
  C5 (secondary derivation law), amended. For a primary triplet \<open>(r, g, b)\<close> the secondary
  string holds, per channel, \<open>clamp(c * 1.25 + 20, 0, 255)\<close> evaluated in double arithmetic and
  rounded to the nearest integer; the boundary cases are 0 to 20, 204 to 255 and 255 to 255.
  The hook starts with the default pair \<open>85 37 131\<close> and \<open>253 185 39\<close>, which is not derived. A
  step changes the pair only by publishing a live sample: the primary string is then the
  rounding of the boosted mean, the primary triplet, and the secondary string is derived from
  that triplet by the law. So every pair the hook returns is the default pair or a primary
  string with the secondary derived from its triplet.
\<close>

theorem secondary_derivation_law:
  "deriveSecondaryFromPrimary (Num r) (Num g) (Num b) =
     showInt (spec_lighten_double r) @ '' '' @ showInt (spec_lighten_double g) @ '' '' @
     showInt (spec_lighten_double b) \<and>
   spec_lighten_double 0 = 20 \<and> spec_lighten_double 204 = 255 \<and> spec_lighten_double 255 = 255 \<and>
   accentPrimaryRgb (mount p) = ''85 37 131'' \<and> accentSecondaryRgb (mount p) = ''253 185 39'' \<and>
   (step p e w = Some w' \<longrightarrow>
    accentPrimaryRgb w' \<noteq> accentPrimaryRgb w \<or> accentSecondaryRgb w' \<noteq> accentSecondaryRgb w \<longrightarrow>
      (\<exists>k outcome s r0 g0 b0. e = SampleSettles k outcome \<and> samples w k = Some s \<and>
         \<not> cancelled s \<and> computeAverageColor (url s) outcome = Inr (r0, g0, b0) \<and>
         accentPrimaryRgb w' = toRgbTripletString (boost r0) (boost g0) (boost b0) \<and>
         accentSecondaryRgb w' = deriveSecondaryFromPrimary (boost r0) (boost g0) (boost b0))) \<and>
   (run p es (mount p) = Some w2 \<longrightarrow>
      accentPrimaryRgb w2 = ''85 37 131'' \<and> accentSecondaryRgb w2 = ''253 185 39'' \<or>
      (\<exists>pr pg pb. accentPrimaryRgb w2 = toRgbTripletString pr pg pb \<and>
         accentSecondaryRgb w2 = deriveSecondaryFromPrimary pr pg pb))"
proof -
  have a: "deriveSecondaryFromPrimary (Num r) (Num g) (Num b) =
     showInt (spec_lighten_double r) @ '' '' @ showInt (spec_lighten_double g) @ '' '' @
     showInt (spec_lighten_double b)"
    unfolding deriveSecondaryFromPrimary_def toRgbTripletString_def secondary_channel ..
  have b: "spec_lighten_double 0 = 20" "spec_lighten_double 204 = 255"
    "spec_lighten_double 255 = 255"
    by code_simp+
  have c: "accentPrimaryRgb (mount p) = ''85 37 131''" "accentSecondaryRgb (mount p) = ''253 185 39''"
    by simp_all
  have d: "\<exists>k outcome s r0 g0 b0. e = SampleSettles k outcome \<and> samples w k = Some s \<and>
         \<not> cancelled s \<and> computeAverageColor (url s) outcome = Inr (r0, g0, b0) \<and>
         accentPrimaryRgb w' = toRgbTripletString (boost r0) (boost g0) (boost b0) \<and>
         accentSecondaryRgb w' = deriveSecondaryFromPrimary (boost r0) (boost g0) (boost b0)"
    if "step p e w = Some w'"
      and "accentPrimaryRgb w' \<noteq> accentPrimaryRgb w \<or> accentSecondaryRgb w' \<noteq> accentSecondaryRgb w"
    by (rule step_publishes [OF that])
  have f: "accentPrimaryRgb w2 = ''85 37 131'' \<and> accentSecondaryRgb w2 = ''253 185 39'' \<or>
      (\<exists>pr pg pb. accentPrimaryRgb w2 = toRgbTripletString pr pg pb \<and>
         accentSecondaryRgb w2 = deriveSecondaryFromPrimary pr pg pb)"
    if "run p es (mount p) = Some w2"
    using accentPair_reachable [OF that] unfolding accentPair_def .
  from a b c d f show ?thesis by blast
qed

theorem secondary_derivation_law_witness:
  "deriveSecondaryFromPrimary (Num 0) (Num 204) (Num 255) = ''20 255 255'' \<and>
   accentSecondaryRgb (mount oneImage) = ''253 185 39'' \<and>
   map_option accentPrimaryRgb (run oneImage [SampleSettles 0 redPixel] (mount oneImage))
     = Some ''255 0 0'' \<and>
   map_option accentSecondaryRgb (run oneImage [SampleSettles 0 redPixel] (mount oneImage))
     = Some ''255 20 20''"
proof -
  have c: "samples (mount oneImage) 0 = Some \<lparr>url = ''a'', cancelled = False\<rparr>"
    by (simp add: samples_mount currentUrl_def initial_def oneImage_def)
  have live: "\<not> cancelled \<lparr>url = ''a'', cancelled = False\<rparr>" by simp
  from step_settles_live [OF c live, of redPixel "Num 255" "Num 0" "Num 0" oneImage]
  obtain w' where st: "step oneImage (SampleSettles 0 redPixel) (mount oneImage) = Some w'"
    and pr: "accentPrimaryRgb w' = toRgbTripletString (boost (Num 255)) (boost (Num 0)) (boost (Num 0))"
    by (auto simp: redPixel_colour)
  have r: "run oneImage [SampleSettles 0 redPixel] (mount oneImage) = Some w'"
    by (simp only: run_step [OF st] run.simps(1))
  have strs: "toRgbTripletString (boost (Num 255)) (boost (Num 0)) (boost (Num 0)) = ''255 0 0''"
    "deriveSecondaryFromPrimary (boost (Num 255)) (boost (Num 0)) (boost (Num 0)) = ''255 20 20''"
    by code_simp+
  have ch: "accentPrimaryRgb w' \<noteq> accentPrimaryRgb (mount oneImage)"
    by (simp add: pr strs)
  have b: "showInt 20 @ '' '' @ showInt 255 @ '' '' @ showInt 255 = ''20 255 255''"
    by code_simp
  note law = secondary_derivation_law [of 0 204 255 oneImage "SampleSettles 0 redPixel"
      "mount oneImage" w' "[SampleSettles 0 redPixel]" w']
  from law b have l1: "deriveSecondaryFromPrimary (Num 0) (Num 204) (Num 255) = ''20 255 255''"
    by simp
  from law have l2: "accentSecondaryRgb (mount oneImage) = ''253 185 39''" by blast
  from law st ch obtain k outcome s r0 g0 b0
    where ev: "SampleSettles 0 redPixel = SampleSettles k outcome"
      and sk: "samples (mount oneImage) k = Some s"
      and col: "computeAverageColor (url s) outcome = Inr (r0, g0, b0)"
      and p': "accentPrimaryRgb w' = toRgbTripletString (boost r0) (boost g0) (boost b0)"
      and s': "accentSecondaryRgb w' = deriveSecondaryFromPrimary (boost r0) (boost g0) (boost b0)"
    by blast
  from ev col have "r0 = Num 255 \<and> g0 = Num 0 \<and> b0 = Num 0"
    by (auto simp: redPixel_colour)
  with p' s' strs have l3: "accentPrimaryRgb w' = ''255 0 0''" "accentSecondaryRgb w' = ''255 20 20''"
    by simp_all
  from l1 l2 l3 r show ?thesis by simp
qed



text \<open>
  C7 (alpha thresholding is safe). When the pixel data is read and every pixel has an alpha
  byte with \<open>alpha / 255 < 0.1\<close>, no pixel contributes, \<open>count\<close> stays 0 and the promise
  resolves with the fallback (85, 37, 131) instead of dividing by zero.
\<close>

theorem alpha_threshold_safe:
  assumes "getContext cv" and "drawImage cv = None" and "getImageData cv = Inr data"
    and "\<forall>j. j < length data \<and> 4 dvd j \<longrightarrow>
      j + 3 < length data \<and> of_nat (unat (data ! (j + 3))) / 255 < (1 / 10 :: rat)"
  shows "computeAverageColor u (Loaded cv) = Inr (Num 85, Num 37, Num 131)"
proof -
  have "averageLoop data 0 (Num 0, Num 0, Num 0, 0) = (Num 0, Num 0, Num 0, 0)"
    by (rule averageLoop_skips [OF assms(4)]) simp
  then have "sampleCanvas cv = Inr fallback"
    using assms(1-3) by (simp add: sampleCanvas_def)
  then show ?thesis
    by (simp add: computeAverageColor_def onload_def fallback_def)
qed

theorem alpha_threshold_safe_witness:
  "computeAverageColor ''a'' (Loaded transparentCanvas) = Inr (Num 85, Num 37, Num 131)"
proof -
  let ?data = "[1, 2, 3, 0, 9, 9, 9, 25] :: 8 word list"
  have a: "getContext transparentCanvas" and b: "drawImage transparentCanvas = None"
    and c: "getImageData transparentCanvas = Inr ?data"
    by (simp_all add: transparentCanvas_def)
  have d: "\<forall>j. j < length ?data \<and> 4 dvd j \<longrightarrow>
      j + 3 < length ?data \<and> of_nat (unat (?data ! (j + 3))) / 255 < (1 / 10 :: rat)"
  proof (intro allI impI)
    fix j :: nat assume "j < length ?data \<and> 4 dvd j"
    then have "j = 0 \<or> j = 4" by auto
    then show "j + 3 < length ?data \<and> of_nat (unat (?data ! (j + 3))) / 255 < (1 / 10 :: rat)"
      by auto
  qed
  show ?thesis by (rule alpha_threshold_safe [OF a b c d])
qed

text \<open>
  C8, as stated, fails. With a single image, after a tick and the fade-clear timeout that
  follows it 800 ms later, the hook returns \<open>isFading = false\<close> and still a previous image.
\<close>

theorem previousIndex_outlives_fade:
  "map_option (useBackgroundCycle oneImage)
     (run oneImage [Elapse 20000, Tick 1, Elapse 800, FadeClear 2] (mount oneImage))
     = Some (Some ''a'', Some ''a'', False, ''85 37 131'', ''253 185 39'')"
  by (simp add: exec_simps oneImage_def useBackgroundCycle_def currentUrl_def previousUrl_def)

text \<open>
  C8 (previous index), amended. \<open>previousIndex\<close> is absent exactly until the first tick, and
  so is the published previous image unless the sequence is empty. Every tick sets it to the
  index being left, in the step that sets \<open>isFading\<close>. No step resets it to absent.
\<close>

theorem previousIndex_set_by_ticks:
  assumes "run p es (mount p) = Some w"
  shows "(previousIndex w = None) = (ticks es = 0) \<and>
    (previousUrl p w = None) = (ticks es = 0 \<or> imageUrls p = []) \<and>
    (\<forall>h w'. step p (Tick h) w = Some w' \<longrightarrow> previousIndex w' = Some (index w) \<and> isFading w') \<and>
    (\<forall>e w'. step p e w = Some w' \<longrightarrow> previousIndex w \<noteq> None \<longrightarrow> previousIndex w' \<noteq> None)"
proof -
  have a: "(previousIndex w = None) = (ticks es = 0)"
    using run_previousIndex [OF assms] by simp
  have a': "(previousUrl p w = None) = (ticks es = 0 \<or> imageUrls p = [])"
    unfolding previousUrl_None a ..
  have b: "previousIndex w' = Some (index w) \<and> isFading w'"
    if st: "step p (Tick h) w = Some w'" for h w'
  proof -
    from step_Tick [OF st] obtain c due where tm: "timers w h = Some (Interval c due)"
      and w': "w' = commit p w (onTick p c (rearm p h c w))"
      by blast
    have "c = index w"
      using timersInv_interval [OF timersInv_reachable [OF assms] tm] by simp
    then show ?thesis by (simp add: w')
  qed
  have c: "previousIndex w' \<noteq> None"
    if "step p e w = Some w'" and "previousIndex w \<noteq> None" for e w'
    using step_previousIndex [OF that(1)] that(2) by simp
  from a a' b c show ?thesis by blast
qed

theorem previousIndex_set_by_ticks_witness:
  "map_option previousIndex (run oneImage [Elapse 20000] (mount oneImage)) = Some None \<and>
   map_option previousIndex (run oneImage [Elapse 20000, Tick 1] (mount oneImage)) = Some (Some 0) \<and>
   map_option isFading (run oneImage [Elapse 20000, Tick 1] (mount oneImage)) = Some True \<and>
   map_option previousIndex (run oneImage [Elapse 20000, Tick 1, Elapse 800, FadeClear 2]
     (mount oneImage)) = Some (Some 0)"
proof -
  define w0 where "w0 = (mount oneImage)\<lparr>now := 20000\<rparr>"
  define w1 where "w1 = commit oneImage w0 (onTick oneImage 0 (rearm oneImage 1 0 w0))"
  define w2 where "w2 = w1\<lparr>now := 20800\<rparr>"
  define w3 where "w3 = (clearTimer 2 w2)\<lparr>isFading := False\<rparr>"
  have e0: "step oneImage (Elapse 20000) (mount oneImage) = Some w0"
    by (simp add: step_def w0_def)
  have e1: "step oneImage (Tick 1) w0 = Some w1"
    by (simp add: exec_simps w0_def w1_def oneImage_def)
  have e2: "step oneImage (Elapse 800) w1 = Some w2"
    by (simp add: step_def w2_def w1_def w0_def)
  have e3: "step oneImage (FadeClear 2) w2 = Some w3"
    by (simp add: exec_simps w3_def w2_def w1_def w0_def oneImage_def commit_same)
  have r0: "run oneImage [Elapse 20000] (mount oneImage) = Some w0"
    by (simp only: run_step [OF e0] run.simps(1))
  have r1: "run oneImage [Elapse 20000, Tick 1] (mount oneImage) = Some w1"
    by (simp only: run_step [OF e0] run_step [OF e1] run.simps(1))
  have r2: "run oneImage [Elapse 20000, Tick 1, Elapse 800] (mount oneImage) = Some w2"
    by (simp only: run_step [OF e0] run_step [OF e1] run_step [OF e2] run.simps(1))
  have r3: "run oneImage [Elapse 20000, Tick 1, Elapse 800, FadeClear 2] (mount oneImage) = Some w3"
    by (simp only: run_step [OF e0] run_step [OF e1] run_step [OF e2] run_step [OF e3]
          run.simps(1))
  have i0: "index w0 = 0" by (simp add: w0_def)
  have t0: "ticks [Elapse 20000] = 0" and t2: "ticks [Elapse 20000, Tick 1, Elapse 800] \<noteq> 0"
    by (simp_all add: ticks_def)
  from previousIndex_set_by_ticks [OF r0] t0 e1 i0
  have a: "previousIndex w0 = None" and b: "previousIndex w1 = Some 0" and c: "isFading w1"
    by auto
  from previousIndex_set_by_ticks [OF r2] t2 e3
  have d: "previousIndex w3 \<noteq> None" by blast
  have "previousIndex w3 = previousIndex w1" by (simp add: w3_def w2_def)
  with b have d': "previousIndex w3 = Some 0" by simp
  from a b c d' r0 r1 r3 show ?thesis by simp
qed

text \<open>
  C9 (empty sequence). For an empty image sequence the divisor \<open>max(1, length)\<close> is 1, the
  index is 0 in every reachable state, and the published current and previous image are absent.
  The interval timer stays active, and a tick that is due is delivered and leaves such a state
  again.
\<close>

theorem empty_sequence_degenerate:
  assumes "imageUrls p = []" and "run p es (mount p) = Some w"
  shows "max 1 (length (imageUrls p)) = 1 \<and> index w = 0 \<and>
    currentUrl p w = None \<and> previousUrl p w = None \<and>
    (\<exists>h due. timerRef w = Some h \<and> timers w h = Some (Interval 0 due) \<and>
       (due \<le> now w \<longrightarrow>
         (\<exists>w'. step p (Tick h) w = Some w' \<and> index w' = 0 \<and> isFading w' \<and>
            currentUrl p w' = None \<and> previousUrl p w' = None)))"
proof -
  have i: "index w = 0" using index_bound [OF assms(2)] assms(1) by simp
  have u: "currentUrl p w' = None \<and> previousUrl p w' = None" for w'
    using assms(1) by (simp add: currentUrl_def previousUrl_def split: option.splits)
  from timersInv_reachable [OF assms(2)] obtain h due
    where h: "timerRef w = Some h" "timers w h = Some (Interval (index w) due)"
    unfolding timersInv_def by blast
  have t: "\<exists>w'. step p (Tick h) w = Some w' \<and> index w' = 0 \<and> isFading w' \<and>
            currentUrl p w' = None \<and> previousUrl p w' = None" if "due \<le> now w"
    using that h(2) u assms(1) by (simp add: step_def)
  from i u h t assms(1) show ?thesis by auto
qed

theorem empty_sequence_degenerate_witness:
  "imageUrls noImages = [] \<and>
   map_option index
     (run noImages [Elapse 20000, Tick 1, Elapse 20000, Tick 1] (mount noImages)) = Some 0 \<and>
   map_option (currentUrl noImages)
     (run noImages [Elapse 20000, Tick 1, Elapse 20000, Tick 1] (mount noImages)) = Some None \<and>
   map_option (previousUrl noImages)
     (run noImages [Elapse 20000, Tick 1, Elapse 20000, Tick 1] (mount noImages)) = Some None"
proof -
  let ?es = "[Elapse 20000, Tick 1, Elapse 20000, Tick 1]"
  have e: "imageUrls noImages = []" by (simp add: noImages_def)
  have "run noImages ?es (mount noImages) \<noteq> None"
    by (simp add: exec_simps noImages_def)
  then obtain w where r: "run noImages ?es (mount noImages) = Some w" by blast
  from empty_sequence_degenerate [OF e r] r e show ?thesis by simp
qed

text \<open>
  C10 (frame of a tick). In a reachable state a tick leaves both accent strings unchanged, and
  a step that changes an accent string is the settling of a sample that is not cancelled and
  was started for the currently active image. The tick callback itself changes nothing but
  \<open>previousIndex\<close>, \<open>isFading\<close>, \<open>index\<close>, \<open>fadeRef\<close>, the handle counter and the timer entries
  of the old and the new fade-clear timeout.
\<close>

theorem accent_frame:
  assumes reach: "run p es (mount p) = Some w" and st: "step p e w = Some w'"
  shows "(isTick e \<longrightarrow>
           accentPrimaryRgb w' = accentPrimaryRgb w \<and> accentSecondaryRgb w' = accentSecondaryRgb w) \<and>
         (accentPrimaryRgb w' \<noteq> accentPrimaryRgb w \<or> accentSecondaryRgb w' \<noteq> accentSecondaryRgb w \<longrightarrow>
           (\<exists>r outcome s. e = SampleSettles r outcome \<and> samples w r = Some s \<and>
              \<not> cancelled s \<and> currentUrl p w = Some (url s))) \<and>
         accentPrimaryRgb (onTick p c w) = accentPrimaryRgb w \<and>
         accentSecondaryRgb (onTick p c w) = accentSecondaryRgb w \<and>
         timerRef (onTick p c w) = timerRef w \<and> accentRun (onTick p c w) = accentRun w \<and>
         samples (onTick p c w) = samples w \<and> nextSample (onTick p c w) = nextSample w \<and>
         now (onTick p c w) = now w \<and>
         (\<forall>k. k \<noteq> nextHandle w \<longrightarrow> fadeRef w \<noteq> Some k \<longrightarrow> timers (onTick p c w) k = timers w k)"
proof -
  have frame: "\<forall>k. k \<noteq> nextHandle w \<longrightarrow> fadeRef w \<noteq> Some k \<longrightarrow> timers (onTick p c w) k = timers w k"
    by (simp add: timers_onTick timers_clearIfSet split: option.splits)
  have main: "(isTick e \<longrightarrow>
           accentPrimaryRgb w' = accentPrimaryRgb w \<and> accentSecondaryRgb w' = accentSecondaryRgb w) \<and>
         (accentPrimaryRgb w' \<noteq> accentPrimaryRgb w \<or> accentSecondaryRgb w' \<noteq> accentSecondaryRgb w \<longrightarrow>
           (\<exists>r outcome s. e = SampleSettles r outcome \<and> samples w r = Some s \<and>
              \<not> cancelled s \<and> currentUrl p w = Some (url s)))"
  proof (cases e)
    case (Tick h)
    with step_Tick st show ?thesis by fastforce
  next
    case (FadeClear h)
    with step_FadeClear st show ?thesis by fastforce
  next
    case (SampleSettles r outcome)
    with step_SampleSettles st obtain s t where s: "samples w r = Some s"
      and w': "w' = onSample s t (w\<lparr>samples := (samples w)(r := None)\<rparr>)"
      by blast
    show ?thesis
    proof (cases "cancelled s")
      case True
      then show ?thesis using SampleSettles by (simp add: w' onSample_stale)
    next
      case False
      have "currentUrl p w = Some (url s)"
        using samplesForD2 [OF samplesInv_reachable [OF reach, unfolded samplesInv_def] s False]
        by simp
      with s False SampleSettles show ?thesis by simp
    qed
  next
    case (Elapse d)
    with step_Elapse st show ?thesis by fastforce
  qed
  from main frame show ?thesis by simp
qed

theorem accent_frame_witness:
  "map_option accentPrimaryRgb (run twoImages [Elapse 20000, Tick 1] (mount twoImages))
     = Some ''85 37 131'' \<and>
   map_option accentSecondaryRgb (run twoImages [Elapse 20000, Tick 1] (mount twoImages))
     = Some ''253 185 39'' \<and>
   accentPrimaryRgb (mount oneImage) = ''85 37 131'' \<and>
   map_option accentPrimaryRgb (step oneImage (SampleSettles 0 redPixel) (mount oneImage))
     = Some ''255 0 0'' \<and>
   samples (mount oneImage) 0 = Some \<lparr>url = ''a'', cancelled = False\<rparr> \<and>
   currentUrl oneImage (mount oneImage) = Some ''a''"
proof -
  define w0 where "w0 = (mount twoImages)\<lparr>now := 20000\<rparr>"
  have e0: "step twoImages (Elapse 20000) (mount twoImages) = Some w0"
    by (simp add: step_def w0_def)
  have r0: "run twoImages [Elapse 20000] (mount twoImages) = Some w0"
    by (simp only: run_step [OF e0] run.simps(1))
  have "step twoImages (Tick 1) w0 \<noteq> None"
    by (simp add: exec_simps w0_def twoImages_def)
  then obtain w1 where e1: "step twoImages (Tick 1) w0 = Some w1" by blast
  have r1: "run twoImages [Elapse 20000, Tick 1] (mount twoImages) = Some w1"
    by (simp only: run_step [OF e0] run_step [OF e1] run.simps(1))
  from accent_frame [OF r0 e1]
  have "accentPrimaryRgb w1 = accentPrimaryRgb w0 \<and> accentSecondaryRgb w1 = accentSecondaryRgb w0"
    by simp
  then have a: "accentPrimaryRgb w1 = ''85 37 131'' \<and> accentSecondaryRgb w1 = ''253 185 39''"
    by (simp add: w0_def)
  have m: "run oneImage [] (mount oneImage) = Some (mount oneImage)" by simp
  have c: "samples (mount oneImage) 0 = Some \<lparr>url = ''a'', cancelled = False\<rparr>"
    by (simp add: samples_mount currentUrl_def initial_def oneImage_def)
  have strs: "toRgbTripletString (boost (Num 255)) (boost (Num 0)) (boost (Num 0)) = ''255 0 0''"
    by code_simp
  define w2 where "w2 = onSample \<lparr>url = ''a'', cancelled = False\<rparr> (Num 255, Num 0, Num 0)
    ((mount oneImage)\<lparr>samples := (samples (mount oneImage))(0 := None)\<rparr>)"
  have e2: "step oneImage (SampleSettles 0 redPixel) (mount oneImage) = Some w2"
    by (simp add: step_def c redPixel_colour w2_def commit_same)
  have p2: "accentPrimaryRgb w2 = ''255 0 0''"
    using onSample_live [of "\<lparr>url = ''a'', cancelled = False\<rparr>" "Num 255" "Num 0" "Num 0"]
    by (simp add: w2_def strs)
  then have "accentPrimaryRgb w2 \<noteq> accentPrimaryRgb (mount oneImage)" by simp
  with accent_frame [OF m e2]
  obtain r outcome s where "SampleSettles 0 redPixel = SampleSettles r outcome"
    and "samples (mount oneImage) r = Some s" and "currentUrl oneImage (mount oneImage) = Some (url s)"
    by blast
  with c have u: "currentUrl oneImage (mount oneImage) = Some ''a''" by auto
  from a r1 c e2 p2 u show ?thesis by simp
qed

end
